theory Spec2Isabelle
  imports Main "HOL-Library.Word" "HOL-Library.Log_Nat"
begin


unbundle bit_operations_syntax

section \<open>Data model\<close>

text \<open>
  A value of \<open>uint<N>\<close> is its array \<open>words_\<close> of \<open>N / 64\<close> words of 64 bits, word 0 the
  least significant: a list of words. \<open>uint128\<close> is the list of its two words,
  \<open>uint128{low, high} = [low, high]\<close>. \<open>result_with_carry<T>\<close> and \<open>div_result<Q, R>\<close> are pairs
  \<open>(value, carry)\<close> and \<open>(quot, rem)\<close>. A C++ shift \<open>x << s\<close> of a 64-bit word is
  \<open>push_bit s x\<close>, \<open>x >> s\<close> is \<open>drop_bit s x\<close>; every shift of the source is by less than 64.
\<close>

type_synonym u64 = "64 word"
type_synonym u32 = "32 word"

datatype error = Invalid_argument | Out_of_range

text \<open>The number a word array denotes.\<close>

fun val :: "u64 list \<Rightarrow> nat" where
  "val [] = 0"
| "val (w # ws) = unat w + 2 ^ 64 * val ws"

text \<open>\<open>uint<N>{}\<close>, the conversion of a 64-bit integer to \<open>uint<N>\<close>, the widening conversion
  of a narrower \<open>uint<M>\<close> (zero-extension) and the narrowing \<open>static_cast\<close> (truncation).\<close>

definition zero_uint :: "nat \<Rightarrow> u64 list" where
  "zero_uint n = replicate n 0"

definition uint_of_u64 :: "nat \<Rightarrow> u64 \<Rightarrow> u64 list" where
  "uint_of_u64 n x = x # replicate (n - 1) 0"

definition widen_uint :: "nat \<Rightarrow> u64 list \<Rightarrow> u64 list" where
  "widen_uint n x = x @ replicate (n - length x) 0"

definition narrow_uint :: "nat \<Rightarrow> u64 list \<Rightarrow> u64 list" where
  "narrow_uint n x = take n x"

section \<open>Word primitives\<close>

definition add_with_carry :: "u64 \<Rightarrow> u64 \<Rightarrow> bool \<Rightarrow> u64 \<times> bool" where
  "add_with_carry x y carry =
     (let s = x + y; carry1 = s < x; t = s + of_bool carry; carry2 = t < s
      in (t, carry1 \<or> carry2))"

fun add_with_carry_n :: "u64 list \<Rightarrow> u64 list \<Rightarrow> bool \<Rightarrow> u64 list \<times> bool" where
  "add_with_carry_n (x # xs) (y # ys) k =
     (let s = x + y; k1 = s < x; s' = s + of_bool k; k' = (s' < of_bool k \<or> k1);
          (r, c) = add_with_carry_n xs ys k'
      in (s' # r, c))"
| "add_with_carry_n [] ys k = ([], k)"
| "add_with_carry_n (x # xs) [] k = ([], k)"

definition sub_with_carry :: "u64 \<Rightarrow> u64 \<Rightarrow> bool \<Rightarrow> u64 \<times> bool" where
  "sub_with_carry x y carry =
     (let d = x - y; carry1 = x < y; e = d - of_bool carry; carry2 = d < of_bool carry
      in (e, carry1 \<or> carry2))"

fun sub_with_carry_n :: "u64 list \<Rightarrow> u64 list \<Rightarrow> bool \<Rightarrow> u64 list \<times> bool" where
  "sub_with_carry_n (x # xs) (y # ys) k =
     (let z = x - y; k1 = x < y; k2 = z < of_bool k; z' = z - of_bool k; k' = (k1 \<or> k2);
          (r, c) = sub_with_carry_n xs ys k'
      in (z' # r, c))"
| "sub_with_carry_n [] ys k = ([], k)"
| "sub_with_carry_n (x # xs) [] k = ([], k)"

text \<open>\<open>operator+\<close> and binary \<open>operator-\<close>, of \<open>uint128\<close> and of \<open>uint<N>\<close> alike.\<close>

definition add_uint :: "u64 list \<Rightarrow> u64 list \<Rightarrow> u64 list" where
  "add_uint x y = fst (add_with_carry_n x y False)"

definition sub_uint :: "u64 list \<Rightarrow> u64 list \<Rightarrow> u64 list" where
  "sub_uint x y = fst (sub_with_carry_n x y False)"

text \<open>The portable \<open>umul\<close> of two words, by 32-bit halves.\<close>

definition umul :: "u64 \<Rightarrow> u64 \<Rightarrow> u64 list" where
  "umul x y =
     (let xl = x AND 0xffffffff; xh = drop_bit 32 x;
          yl = y AND 0xffffffff; yh = drop_bit 32 y;
          t0 = xl * yl; t1 = xh * yl; t2 = xl * yh; t3 = xh * yh;
          u1 = t1 + drop_bit 32 t0;
          u2 = t2 + (u1 AND 0xffffffff);
          lo = push_bit 32 u2 OR (t0 AND 0xffffffff);
          hi = t3 + drop_bit 32 u2 + drop_bit 32 u1
      in [lo, hi])"

text \<open>Modelled from the spec: the compiler intrinsic \<open>__builtin_clzll\<close>, which is not code of
  the repository: the number of leading zero bits of a non-zero word.\<close>

definition builtin_clzll :: "u64 \<Rightarrow> nat" where
  "builtin_clzll x = 64 - floorlog 2 (unat x)"

definition clz :: "u64 \<Rightarrow> nat" where
  "clz x = (if x \<noteq> 0 then builtin_clzll x else 64)"

section \<open>The 128-bit type\<close>

definition eq_u128 :: "u64 list \<Rightarrow> u64 list \<Rightarrow> bool" where
  "eq_u128 x y = (x ! 0 = y ! 0 \<and> x ! 1 = y ! 1)"

definition ne_u128 :: "u64 list \<Rightarrow> u64 list \<Rightarrow> bool" where
  "ne_u128 x y = (x ! 0 \<noteq> y ! 0 \<or> x ! 1 \<noteq> y ! 1)"

definition less_u128 :: "u64 list \<Rightarrow> u64 list \<Rightarrow> bool" where
  "less_u128 x y = (x ! 1 < y ! 1 \<or> (x ! 1 = y ! 1 \<and> x ! 0 < y ! 0))"

definition ge_u128 :: "u64 list \<Rightarrow> u64 list \<Rightarrow> bool" where
  "ge_u128 x y = (\<not> less_u128 x y)"

definition and_u128 :: "u64 list \<Rightarrow> u64 list \<Rightarrow> u64 list" where
  "and_u128 x y = [x ! 0 AND y ! 0, x ! 1 AND y ! 1]"

definition neg_u128 :: "u64 list \<Rightarrow> u64 list" where
  "neg_u128 x = sub_uint [0, 0] x"

definition lshift_u128 :: "u64 list \<Rightarrow> u64 \<Rightarrow> u64 list" where
  "lshift_u128 x shift =
     (if shift < 64
      then [push_bit (unat shift) (x ! 0),
            push_bit (unat shift) (x ! 1) OR drop_bit (unat (63 - shift)) (drop_bit 1 (x ! 0))]
      else if shift < 128 then [0, push_bit (unat (shift - 64)) (x ! 0)]
      else [0, 0])"

definition lshift_u128_by_u128 :: "u64 list \<Rightarrow> u64 list \<Rightarrow> u64 list" where
  "lshift_u128_by_u128 x shift = (if shift ! 1 \<noteq> 0 then [0, 0] else lshift_u128 x (shift ! 0))"

definition rshift_u128 :: "u64 list \<Rightarrow> u64 \<Rightarrow> u64 list" where
  "rshift_u128 x shift =
     (if shift < 64
      then [drop_bit (unat shift) (x ! 0) OR push_bit (unat (63 - shift)) (push_bit 1 (x ! 1)),
            drop_bit (unat shift) (x ! 1)]
      else if shift < 128 then [drop_bit (unat (shift - 64)) (x ! 1), 0]
      else [0, 0])"

definition rshift_u128_by_u128 :: "u64 list \<Rightarrow> u64 list \<Rightarrow> u64 list" where
  "rshift_u128_by_u128 x shift = (if shift ! 1 \<noteq> 0 then [0, 0] else rshift_u128 x (shift ! 0))"

definition mul_u128 :: "u64 list \<Rightarrow> u64 list \<Rightarrow> u64 list" where
  "mul_u128 x y =
     (let p = umul (x ! 0) (y ! 0);
          p1 = p ! 1 + (x ! 0 * y ! 1 + x ! 1 * y ! 0)
      in [p ! 0, p1])"

subsection \<open>Division by reciprocal\<close>

definition reciprocal_table_item :: "8 word \<Rightarrow> 16 word" where
  "reciprocal_table_item d9 = ucast ((0x7fd00 :: u32) div (0x100 OR ucast d9))"

definition reciprocal_table :: "16 word list" where
  "reciprocal_table = map (\<lambda>i. reciprocal_table_item (of_nat i)) [0..<256]"

text \<open>\<open>INTX_REQUIRE\<close> is an assertion: where it fails the model returns \<open>None\<close>.\<close>

definition reciprocal_2by1 :: "u64 \<Rightarrow> u64 option" where
  "reciprocal_2by1 d =
     (if d AND 0x8000000000000000 = 0 then None
      else
        let d9 = drop_bit 55 d;
            v0 = (ucast (reciprocal_table ! unat (d9 - 256)) :: u32);
            d40 = drop_bit 24 d + 1;
            v1 = (ucast (push_bit 11 v0 - ucast (drop_bit 40 (ucast (v0 * v0) * d40)) - 1) :: u64);
            v2 = push_bit 13 v1 + drop_bit 47 (v1 * (0x1000000000000000 - v1 * d40));
            d0 = d AND 1;
            d63 = drop_bit 1 d + d0;
            e = (drop_bit 1 v2 AND (0 - d0)) - v2 * d63;
            v3 = drop_bit 1 (umul v2 e ! 1) + push_bit 31 v2;
            v4 = v3 - add_uint (umul v3 d) [d, 0] ! 1 - d
        in Some v4)"

definition reciprocal_3by2 :: "u64 list \<Rightarrow> u64 option" where
  "reciprocal_3by2 d =
     (case reciprocal_2by1 (d ! 1) of
        None \<Rightarrow> None
      | Some v0 \<Rightarrow>
          let p0 = d ! 1 * v0 + d ! 0;
              (v1, p1) =
                (if p0 < d ! 0
                 then (let v' = v0 - 1;
                           (v'', p') = (if p0 \<ge> d ! 1 then (v' - 1, p0 - d ! 1) else (v', p0))
                       in (v'', p' - d ! 1))
                 else (v0, p0));
              t = umul v1 (d ! 0);
              p2 = p1 + t ! 1;
              v2 = (if p2 < t ! 1
                    then (let v' = v1 - 1
                          in if p2 \<ge> d ! 1 \<and> (p2 > d ! 1 \<or> t ! 0 \<ge> d ! 0) then v' - 1 else v')
                    else v1)
          in Some v2)"

definition udivrem_2by1 :: "u64 list \<Rightarrow> u64 \<Rightarrow> u64 \<Rightarrow> u64 \<times> u64" where
  "udivrem_2by1 u d v =
     (let q = add_uint (umul v (u ! 1)) u;
          q0 = q ! 0;
          q1 = q ! 1 + 1;
          r = u ! 0 - q1 * d;
          (q1, r) = (if r > q0 then (q1 - 1, r + d) else (q1, r));
          (q1, r) = (if r \<ge> d then (q1 + 1, r - d) else (q1, r))
      in (q1, r))"

definition udivrem_3by2 :: "u64 \<Rightarrow> u64 \<Rightarrow> u64 \<Rightarrow> u64 list \<Rightarrow> u64 \<Rightarrow> u64 \<times> u64 list" where
  "udivrem_3by2 u2 u1 u0 d v =
     (let q = add_uint (umul v u2) [u1, u2];
          q0 = q ! 0;
          r1 = u1 - q ! 1 * d ! 1;
          t = umul (d ! 0) (q ! 1);
          r = sub_uint (sub_uint [u0, r1] t) d;
          r1 = r ! 1;
          q1 = q ! 1 + 1;
          (q1, r) = (if r1 \<ge> q0 then (q1 - 1, add_uint r d) else (q1, r));
          (q1, r) = (if ge_u128 r d then (q1 + 1, sub_uint r d) else (q1, r))
      in (q1, r))"

definition udivrem_u128 :: "u64 list \<Rightarrow> u64 list \<Rightarrow> (u64 list \<times> u64 list) option" where
  "udivrem_u128 x y =
     (if y ! 1 = 0
      then
        if y ! 0 = 0 then None
        else
          let lsh = clz (y ! 0);
              rsh = (64 - lsh) mod 64;
              rsh_mask = (of_bool (lsh = 0) - 1 :: u64);
              yn = push_bit lsh (y ! 0);
              xn_lo = push_bit lsh (x ! 0);
              xn_hi = push_bit lsh (x ! 1) OR (drop_bit rsh (x ! 0) AND rsh_mask);
              xn_ex = drop_bit rsh (x ! 1) AND rsh_mask
          in case reciprocal_2by1 yn of
               None \<Rightarrow> None
             | Some v \<Rightarrow>
                 let res1 = udivrem_2by1 [xn_hi, xn_ex] yn v;
                     res2 = udivrem_2by1 [xn_lo, snd res1] yn v
                 in Some ([fst res2, fst res1], [drop_bit lsh (snd res2), 0])
      else if y ! 1 > x ! 1 then Some ([0, 0], x)
      else
        let lsh = clz (y ! 1)
        in if lsh = 0
           then
             let q = (of_bool (y ! 1 < x ! 1) OR of_bool (y ! 0 \<le> x ! 0) :: u32)
             in Some ([ucast q, 0], sub_uint x (if q \<noteq> 0 then y else [0, 0]))
           else
             let rsh = 64 - lsh;
                 yn_lo = push_bit lsh (y ! 0);
                 yn_hi = push_bit lsh (y ! 1) OR drop_bit rsh (y ! 0);
                 xn_lo = push_bit lsh (x ! 0);
                 xn_hi = push_bit lsh (x ! 1) OR drop_bit rsh (x ! 0);
                 xn_ex = drop_bit rsh (x ! 1)
             in case reciprocal_3by2 [yn_lo, yn_hi] of
                  None \<Rightarrow> None
                | Some v \<Rightarrow>
                    let res = udivrem_3by2 xn_ex xn_hi xn_lo [yn_lo, yn_hi] v
                    in Some ([fst res, 0], rshift_u128 (snd res) (of_nat lsh)))"

definition sdivrem_u128 :: "u64 list \<Rightarrow> u64 list \<Rightarrow> (u64 list \<times> u64 list) option" where
  "sdivrem_u128 x y =
     (let sign_mask = lshift_u128 [1, 0] 127;
          x_is_neg = ne_u128 (and_u128 x sign_mask) [0, 0];
          y_is_neg = ne_u128 (and_u128 y sign_mask) [0, 0];
          x_abs = (if x_is_neg then neg_u128 x else x);
          y_abs = (if y_is_neg then neg_u128 y else y);
          q_is_neg = (x_is_neg \<noteq> y_is_neg)
      in case udivrem_u128 x_abs y_abs of
           None \<Rightarrow> None
         | Some (quot, rem) \<Rightarrow>
             Some (if q_is_neg then neg_u128 quot else quot,
                   if x_is_neg then neg_u128 rem else rem))"

section \<open>The generic type \<open>uint<N>\<close>\<close>

fun eq_uint :: "u64 list \<Rightarrow> u64 list \<Rightarrow> bool" where
  "eq_uint (x # xs) (y # ys) = (x = y \<and> eq_uint xs ys)"
| "eq_uint [] ys = True"
| "eq_uint (x # xs) [] = True"

definition ne_uint :: "u64 list \<Rightarrow> u64 list \<Rightarrow> bool" where
  "ne_uint x y = (\<not> eq_uint x y)"

text \<open>The \<open>uint256\<close> overload of \<open>operator<\<close> and the template of every other width.\<close>

definition less_u256 :: "u64 list \<Rightarrow> u64 list \<Rightarrow> bool" where
  "less_u256 x y =
     (let xhi = [x ! 2, x ! 3]; xlo = [x ! 0, x ! 1];
          yhi = [y ! 2, y ! 3]; ylo = [y ! 0, y ! 1]
      in less_u128 xhi yhi \<or> (eq_u128 xhi yhi \<and> less_u128 xlo ylo))"

definition less_n :: "u64 list \<Rightarrow> u64 list \<Rightarrow> bool" where
  "less_n x y = snd (sub_with_carry_n x y False)"

text \<open>Overload resolution picks the \<open>uint128\<close> and \<open>uint256\<close> overloads at their widths.\<close>

definition less_uint :: "u64 list \<Rightarrow> u64 list \<Rightarrow> bool" where
  "less_uint x y =
     (if length x = 2 then less_u128 x y
      else if length x = 4 then less_u256 x y
      else less_n x y)"

definition or_uint :: "u64 list \<Rightarrow> u64 list \<Rightarrow> u64 list" where
  "or_uint x y = map2 (OR) x y"

definition and_uint :: "u64 list \<Rightarrow> u64 list \<Rightarrow> u64 list" where
  "and_uint x y = map2 (AND) x y"

definition not_uint :: "u64 list \<Rightarrow> u64 list" where
  "not_uint x = map NOT x"

text \<open>The word loops of the shifts: \<open>lshift_loop\<close> runs over the words from word 0 upwards,
  \<open>rshift_loop\<close> from the top word downwards, each carrying the bits that cross into the
  next word.\<close>

fun lshift_loop :: "u64 list \<Rightarrow> nat \<Rightarrow> u64 \<Rightarrow> u64 list" where
  "lshift_loop [] s carry = []"
| "lshift_loop (x # xs) s carry =
     (push_bit s x OR carry) # lshift_loop xs s (drop_bit 1 (drop_bit (64 - s - 1) x))"

fun rshift_loop :: "u64 list \<Rightarrow> nat \<Rightarrow> u64 \<Rightarrow> u64 list" where
  "rshift_loop [] s carry = []"
| "rshift_loop (x # xs) s carry =
     (drop_bit s x OR carry) # rshift_loop xs s (push_bit 1 (push_bit (64 - s - 1) x))"

definition lshift_u256 :: "u64 list \<Rightarrow> u64 \<Rightarrow> u64 list" where
  "lshift_u256 x shift =
     (if shift \<ge> 256 then zero_uint 4
      else
        let xlo = [x ! 0, x ! 1]
        in if shift < 128
           then
             let lo = lshift_u128 xlo shift;
                 xhi = [x ! 2, x ! 3];
                 rshift = 128 - shift;
                 lo_overflow = rshift_u128 (rshift_u128 xlo (rshift - 1)) 1;
                 hi = or_uint (lshift_u128 xhi shift) lo_overflow
             in [lo ! 0, lo ! 1, hi ! 0, hi ! 1]
           else
             let hi = lshift_u128 xlo (shift - 128)
             in [0, 0, hi ! 0, hi ! 1])"

definition lshift_n :: "u64 list \<Rightarrow> u64 \<Rightarrow> u64 list" where
  "lshift_n x shift =
     (let n = length x
      in if unat shift \<ge> 64 * n then zero_uint n
         else
           let s = unat shift mod 64; skip = unat shift div 64
           in replicate skip 0 @ lshift_loop (take (n - skip) x) s 0)"

definition rshift_u256 :: "u64 list \<Rightarrow> u64 \<Rightarrow> u64 list" where
  "rshift_u256 x shift =
     (if shift \<ge> 256 then zero_uint 4
      else
        let xhi = [x ! 2, x ! 3]
        in if shift < 128
           then
             let hi = rshift_u128 xhi shift;
                 xlo = [x ! 0, x ! 1];
                 lshift = 128 - shift;
                 hi_overflow = lshift_u128 (lshift_u128 xhi (lshift - 1)) 1;
                 lo = or_uint (rshift_u128 xlo shift) hi_overflow
             in [lo ! 0, lo ! 1, hi ! 0, hi ! 1]
           else
             let lo = rshift_u128 xhi (shift - 128)
             in [lo ! 0, lo ! 1, 0, 0])"

definition rshift_n :: "u64 list \<Rightarrow> u64 \<Rightarrow> u64 list" where
  "rshift_n x shift =
     (let n = length x
      in if unat shift \<ge> 64 * n then zero_uint n
         else
           let s = unat shift mod 64; skip = unat shift div 64
           in rev (rshift_loop (take (n - skip) (rev x)) s 0) @ replicate skip 0)"

definition lshift_uint :: "u64 list \<Rightarrow> u64 \<Rightarrow> u64 list" where
  "lshift_uint x shift =
     (if length x = 2 then lshift_u128 x shift
      else if length x = 4 then lshift_u256 x shift
      else lshift_n x shift)"

definition rshift_uint :: "u64 list \<Rightarrow> u64 \<Rightarrow> u64 list" where
  "rshift_uint x shift =
     (if length x = 2 then rshift_u128 x shift
      else if length x = 4 then rshift_u256 x shift
      else rshift_n x shift)"

text \<open>Shifts by an amount that is a \<open>uint<N>\<close> itself: the template folds the words above
  word 0 with OR.\<close>

definition high_words_fold :: "u64 list \<Rightarrow> u64" where
  "high_words_fold shift = fold (\<lambda>w acc. acc OR w) (tl shift) 0"

definition lshift_n_by_uint :: "u64 list \<Rightarrow> u64 list \<Rightarrow> u64 list" where
  "lshift_n_by_uint x shift =
     (if high_words_fold shift \<noteq> 0 then zero_uint (length x)
      else lshift_uint x (shift ! 0))"

definition rshift_n_by_uint :: "u64 list \<Rightarrow> u64 list \<Rightarrow> u64 list" where
  "rshift_n_by_uint x shift =
     (if high_words_fold shift \<noteq> 0 then zero_uint (length x)
      else rshift_uint x (shift ! 0))"

definition lshift_by_uint :: "u64 list \<Rightarrow> u64 list \<Rightarrow> u64 list" where
  "lshift_by_uint x shift =
     (if length x = 2 then lshift_u128_by_u128 x shift else lshift_n_by_uint x shift)"

definition rshift_by_uint :: "u64 list \<Rightarrow> u64 list \<Rightarrow> u64 list" where
  "rshift_by_uint x shift =
     (if length x = 2 then rshift_u128_by_u128 x shift else rshift_n_by_uint x shift)"

text \<open>Unary minus of the template: \<open>~x + uint<N>{1}\<close>.\<close>

definition neg_n :: "u64 list \<Rightarrow> u64 list" where
  "neg_n x = add_uint (not_uint x) (uint_of_u64 (length x) 1)"

text \<open>The schoolbook products. \<open>umul_inner\<close> is the inner loop of both: \<open>cnt\<close> iterations
  from index \<open>i\<close>, for the word \<open>yj = y[j]\<close>, on the partial product \<open>p\<close> with carry \<open>k\<close>.\<close>

fun umul_inner :: "u64 list \<Rightarrow> u64 \<Rightarrow> nat \<Rightarrow> nat \<Rightarrow> nat \<Rightarrow> u64 \<Rightarrow> u64 list \<Rightarrow> u64 list \<times> u64" where
  "umul_inner x yj j i 0 k p = (p, k)"
| "umul_inner x yj j i (Suc cnt) k p =
     (let t = add_uint (add_uint (umul (x ! i) yj) [p ! (i + j), 0]) [k, 0]
      in umul_inner x yj j (Suc i) cnt (t ! 1) (p[i + j := t ! 0]))"

fun umul_outer :: "u64 list \<Rightarrow> u64 list \<Rightarrow> nat \<Rightarrow> nat \<Rightarrow> u64 list \<Rightarrow> u64 list" where
  "umul_outer x y j 0 p = p"
| "umul_outer x y j (Suc cnt) p =
     (let (p', k) = umul_inner x (y ! j) j 0 (length x) 0 p
      in umul_outer x y (Suc j) cnt (p'[j + length x := k]))"

definition umul_n :: "u64 list \<Rightarrow> u64 list \<Rightarrow> u64 list" where
  "umul_n x y = umul_outer x y 0 (length x) (zero_uint (2 * length x))"

fun mul_outer :: "u64 list \<Rightarrow> u64 list \<Rightarrow> nat \<Rightarrow> nat \<Rightarrow> u64 list \<Rightarrow> u64 list" where
  "mul_outer x y j 0 p = p"
| "mul_outer x y j (Suc cnt) p =
     (let n = length x;
          (p', k) = umul_inner x (y ! j) j 0 (n - j - 1) 0 p
      in mul_outer x y (Suc j) cnt
           (p'[n - 1 := p' ! (n - 1) + (x ! (n - j - 1) * y ! j + k)]))"

definition mul_n :: "u64 list \<Rightarrow> u64 list \<Rightarrow> u64 list" where
  "mul_n x y = mul_outer x y 0 (length x) (zero_uint (length x))"

definition mul_uint :: "u64 list \<Rightarrow> u64 list \<Rightarrow> u64 list" where
  "mul_uint x y = (if length x = 2 then mul_u128 x y else mul_n x y)"

section \<open>The multiword division engine\<close>

record normalized_div_args =
  na_divisor :: "u64 list"
  na_numerator :: "u64 list"
  na_num_divisor_words :: nat
  na_num_numerator_words :: nat
  na_shift :: nat

text \<open>The loop \<open>for (m = num_words; m > 0 && u[m - 1] == 0; --m)\<close>.\<close>

fun skip_zero_words :: "u64 list \<Rightarrow> nat \<Rightarrow> nat" where
  "skip_zero_words u 0 = 0"
| "skip_zero_words u (Suc m) = (if u ! m = 0 then skip_zero_words u m else Suc m)"

definition clz_nonzero :: "u64 \<Rightarrow> nat option" where
  "clz_nonzero x = (if x = 0 then None else Some (builtin_clzll x))"

text \<open>The words \<open>(v[i] << shift) | (v[i - 1] >> (64 - shift))\<close> for \<open>i \<ge> 1\<close>, \<open>prev\<close> being
  \<open>v[i - 1]\<close>.\<close>

fun normalize_words :: "u64 list \<Rightarrow> nat \<Rightarrow> u64 \<Rightarrow> u64 list" where
  "normalize_words [] sh prev = []"
| "normalize_words (w # ws) sh prev =
     (push_bit sh w OR drop_bit (64 - sh) prev) # normalize_words ws sh w"

text \<open>
  \<open>normalize\<close> ends with the test \<open>un[m] != 0 || un[m - 1] >= vn[n - 1]\<close>. For a zero numerator
  \<open>m\<close> is 0 there and \<open>un[m - 1]\<close> is read below the array: the model takes the word that
  lies there as the parameter \<open>below\<close>, and so do the callers of \<open>normalize\<close>. A zero
  denominator (\<open>n = 0\<close>) is the violated contract of the division.
\<close>

definition normalize :: "u64 \<Rightarrow> u64 list \<Rightarrow> u64 list \<Rightarrow> normalized_div_args option" where
  "normalize below numerator denominator =
     (let num_numerator_words = length numerator;
          num_denominator_words = length denominator;
          u = numerator; v = denominator;
          m = skip_zero_words u num_numerator_words;
          n = skip_zero_words v num_denominator_words
      in if n = 0 then None
         else
           case clz_nonzero (v ! (n - 1)) of
             None \<Rightarrow> None
           | Some sh \<Rightarrow>
               let (un, vn) =
                     (if sh \<noteq> 0
                      then (push_bit sh (u ! 0) # normalize_words (tl u) sh (u ! 0)
                              @ [drop_bit (64 - sh) (u ! (num_numerator_words - 1))],
                            push_bit sh (v ! 0) # normalize_words (tl v) sh (v ! 0))
                      else (widen_uint (num_numerator_words + 1) numerator, denominator));
                   m' = (if un ! m \<noteq> 0 \<or> (if m = 0 then below else un ! (m - 1)) \<ge> vn ! (n - 1)
                         then m + 1 else m)
               in Some \<lparr>na_divisor = vn, na_numerator = un, na_num_divisor_words = n,
                        na_num_numerator_words = m', na_shift = sh\<rparr>)"

text \<open>The do-while loops of \<open>udivrem_by1\<close> and \<open>udivrem_by2\<close>, at the word index \<open>it\<close>.\<close>

fun udivrem_by1_loop :: "u64 list \<Rightarrow> nat \<Rightarrow> u64 \<Rightarrow> u64 \<Rightarrow> u64 \<Rightarrow> u64 list \<times> u64" where
  "udivrem_by1_loop u 0 rem d reciprocal =
     (let (q, r) = udivrem_2by1 [u ! 0, rem] d reciprocal in (u[0 := q], r))"
| "udivrem_by1_loop u (Suc it) rem d reciprocal =
     (let (q, r) = udivrem_2by1 [u ! Suc it, rem] d reciprocal
      in udivrem_by1_loop (u[Suc it := q]) it r d reciprocal)"

definition udivrem_by1 :: "u64 list \<Rightarrow> nat \<Rightarrow> u64 \<Rightarrow> (u64 list \<times> u64) option" where
  "udivrem_by1 u len d =
     (if len < 2 then None
      else
        case reciprocal_2by1 d of
          None \<Rightarrow> None
        | Some reciprocal \<Rightarrow>
            let rem = u ! (len - 1);
                u' = u[len - 1 := 0]
            in Some (udivrem_by1_loop u' (len - 2) rem d reciprocal))"

fun udivrem_by2_loop :: "u64 list \<Rightarrow> nat \<Rightarrow> u64 list \<Rightarrow> u64 list \<Rightarrow> u64 \<Rightarrow> u64 list \<times> u64 list" where
  "udivrem_by2_loop u 0 rem d reciprocal =
     (let (q, r) = udivrem_3by2 (rem ! 1) (rem ! 0) (u ! 0) d reciprocal in (u[0 := q], r))"
| "udivrem_by2_loop u (Suc it) rem d reciprocal =
     (let (q, r) = udivrem_3by2 (rem ! 1) (rem ! 0) (u ! Suc it) d reciprocal
      in udivrem_by2_loop (u[Suc it := q]) it r d reciprocal)"

definition udivrem_by2 :: "u64 list \<Rightarrow> nat \<Rightarrow> u64 list \<Rightarrow> (u64 list \<times> u64 list) option" where
  "udivrem_by2 u len d =
     (if len < 3 then None
      else
        case reciprocal_3by2 d of
          None \<Rightarrow> None
        | Some reciprocal \<Rightarrow>
            let rem = [u ! (len - 2), u ! (len - 1)];
                u' = u[len - 1 := 0, len - 2 := 0]
            in Some (udivrem_by2_loop u' (len - 3) rem d reciprocal))"

text \<open>\<open>add\<close> and \<open>submul\<close> work on the \<open>len\<close> words that start at the pointers \<open>x\<close> and
  \<open>y\<close>, here the lists from these words on, and return the words written to \<open>s\<close> (to \<open>r\<close>).
  \<open>store_words u j s\<close> is the array \<open>u\<close> after these words are written at \<open>&u[j]\<close>.\<close>

fun add_loop :: "u64 list \<Rightarrow> u64 list \<Rightarrow> bool \<Rightarrow> u64 list \<times> bool" where
  "add_loop (x # xs) (y # ys) carry =
     (let (s, carry') = add_with_carry x y carry;
          (r, c) = add_loop xs ys carry'
      in (s # r, c))"
| "add_loop [] ys carry = ([], carry)"
| "add_loop (x # xs) [] carry = ([], carry)"

definition add :: "u64 list \<Rightarrow> u64 list \<Rightarrow> nat \<Rightarrow> (u64 list \<times> bool) option" where
  "add x y len = (if len < 2 then None else Some (add_loop (take len x) (take len y) False))"

fun submul_loop :: "u64 list \<Rightarrow> u64 list \<Rightarrow> u64 \<Rightarrow> u64 \<Rightarrow> u64 list \<times> u64" where
  "submul_loop (x # xs) (y # ys) multiplier borrow =
     (let s = sub_with_carry x borrow False;
          p = umul y multiplier;
          t = sub_with_carry (fst s) (p ! 0) False;
          borrow' = p ! 1 + of_bool (snd s) + of_bool (snd t);
          (r, b) = submul_loop xs ys multiplier borrow'
      in (fst t # r, b))"
| "submul_loop [] ys multiplier borrow = ([], borrow)"
| "submul_loop (x # xs) [] multiplier borrow = ([], borrow)"

definition submul :: "u64 list \<Rightarrow> u64 list \<Rightarrow> nat \<Rightarrow> u64 \<Rightarrow> (u64 list \<times> u64) option" where
  "submul x y len multiplier =
     (if len < 1 then None else Some (submul_loop (take len x) (take len y) multiplier 0))"

definition store_words :: "u64 list \<Rightarrow> nat \<Rightarrow> u64 list \<Rightarrow> u64 list" where
  "store_words u j s = take j u @ s @ drop (j + length s) u"

text \<open>One iteration of the loop of \<open>udivrem_knuth\<close>, for the quotient word \<open>j\<close>.\<close>

definition udivrem_knuth_step ::
  "u64 list \<Rightarrow> u64 list \<Rightarrow> u64 list \<Rightarrow> nat \<Rightarrow> u64 list \<Rightarrow> u64 \<Rightarrow> nat \<Rightarrow> (u64 list \<times> u64 list) option" where
  "udivrem_knuth_step q u d dlen divisor reciprocal j =
     (let u2 = u ! (j + dlen); u1 = u ! (j + dlen - 1); u0 = u ! (j + dlen - 2)
      in if eq_u128 [u1, u2] divisor
         then
           let qhat = NOT 0
           in case submul (drop j u) d dlen qhat of
                None \<Rightarrow> None
              | Some (r, borrow) \<Rightarrow>
                  Some (q[j := qhat], (store_words u j r)[j + dlen := u2 - borrow])
         else
           let (qhat, rhat) = udivrem_3by2 u2 u1 u0 divisor reciprocal
           in case submul (drop j u) d (dlen - 2) qhat of
                None \<Rightarrow> None
              | Some (r, overflow) \<Rightarrow>
                  let u' = store_words u j r;
                      (w0, carry) = sub_with_carry (rhat ! 0) overflow False;
                      u' = u'[j + dlen - 2 := w0];
                      (w1, carry) = sub_with_carry (rhat ! 1) (of_bool carry) False;
                      u' = u'[j + dlen - 1 := w1]
                  in if carry
                     then
                       case add (drop j u') d (dlen - 1) of
                         None \<Rightarrow> None
                       | Some (s, c) \<Rightarrow>
                           let u'' = store_words u' j s
                           in Some (q[j := qhat - 1],
                                    u''[j + dlen - 1 := u'' ! (j + dlen - 1) + (divisor ! 1 + of_bool c)])
                     else Some (q[j := qhat], u'))"

fun udivrem_knuth_loop ::
  "u64 list \<Rightarrow> u64 list \<Rightarrow> u64 list \<Rightarrow> nat \<Rightarrow> u64 list \<Rightarrow> u64 \<Rightarrow> nat \<Rightarrow> (u64 list \<times> u64 list) option" where
  "udivrem_knuth_loop q u d dlen divisor reciprocal 0 = Some (q, u)"
| "udivrem_knuth_loop q u d dlen divisor reciprocal (Suc j) =
     (case udivrem_knuth_step q u d dlen divisor reciprocal j of
        None \<Rightarrow> None
      | Some (q', u') \<Rightarrow> udivrem_knuth_loop q' u' d dlen divisor reciprocal j)"

definition udivrem_knuth ::
  "u64 list \<Rightarrow> u64 list \<Rightarrow> nat \<Rightarrow> u64 list \<Rightarrow> nat \<Rightarrow> (u64 list \<times> u64 list) option" where
  "udivrem_knuth q u ulen d dlen =
     (if dlen < 3 \<or> ulen < dlen then None
      else
        let divisor = [d ! (dlen - 2), d ! (dlen - 1)]
        in case reciprocal_3by2 divisor of
             None \<Rightarrow> None
           | Some reciprocal \<Rightarrow> udivrem_knuth_loop q u d dlen divisor reciprocal (ulen - dlen))"

text \<open>The remainder words that \<open>udivrem\<close> shifts back after \<open>udivrem_knuth\<close>; the words of
  \<open>r\<close> from \<open>num_divisor_words\<close> on stay zero.\<close>

definition denormalize_word :: "u64 list \<Rightarrow> nat \<Rightarrow> nat \<Rightarrow> nat \<Rightarrow> u64" where
  "denormalize_word un n sh i =
     (if i < n - 1
      then (if sh \<noteq> 0 then drop_bit sh (un ! i) OR push_bit (64 - sh) (un ! (i + 1)) else un ! i)
      else if i = n - 1 then drop_bit sh (un ! (n - 1))
      else 0)"

definition udivrem_n :: "u64 \<Rightarrow> u64 list \<Rightarrow> u64 list \<Rightarrow> (u64 list \<times> u64 list) option" where
  "udivrem_n below u v =
     (case normalize below u v of
        None \<Rightarrow> None
      | Some na \<Rightarrow>
          if na_num_numerator_words na \<le> na_num_divisor_words na
          then Some (zero_uint (length u), narrow_uint (length v) u)
          else if na_num_divisor_words na = 1
          then
            case udivrem_by1 (na_numerator na) (na_num_numerator_words na) (na_divisor na ! 0) of
              None \<Rightarrow> None
            | Some (un, r) \<Rightarrow>
                Some (narrow_uint (length u) un, uint_of_u64 (length v) (drop_bit (na_shift na) r))
          else if na_num_divisor_words na = 2
          then
            let d = na_divisor na
            in case udivrem_by2 (na_numerator na) (na_num_numerator_words na) [d ! 0, d ! 1] of
                 None \<Rightarrow> None
               | Some (un, r) \<Rightarrow>
                   Some (narrow_uint (length u) un,
                         widen_uint (length v) (rshift_u128 r (of_nat (na_shift na))))
          else
            case udivrem_knuth (zero_uint (length u)) (na_numerator na) (na_num_numerator_words na)
                   (na_divisor na) (na_num_divisor_words na) of
              None \<Rightarrow> None
            | Some (q, un) \<Rightarrow>
                Some (q, map (denormalize_word un (na_num_divisor_words na) (na_shift na))
                           [0..<length v]))"

text \<open>\<open>udivrem\<close> of two values of one width: the \<open>uint128\<close> overload or the template.\<close>

definition udivrem :: "u64 \<Rightarrow> u64 list \<Rightarrow> u64 list \<Rightarrow> (u64 list \<times> u64 list) option" where
  "udivrem below x y = (if length x = 2 then udivrem_u128 x y else udivrem_n below x y)"

definition sdivrem_n :: "u64 \<Rightarrow> u64 list \<Rightarrow> u64 list \<Rightarrow> (u64 list \<times> u64 list) option" where
  "sdivrem_n below u v =
     (let n = length u;
          sign_mask = lshift_uint (uint_of_u64 n 1) (of_nat (8 * n * 8 - 1));
          u_is_neg = ne_uint (and_uint u sign_mask) (zero_uint n);
          v_is_neg = ne_uint (and_uint v sign_mask) (zero_uint n);
          u_abs = (if u_is_neg then neg_n u else u);
          v_abs = (if v_is_neg then neg_n v else v);
          q_is_neg = (u_is_neg \<noteq> v_is_neg)
      in case udivrem_n below u_abs v_abs of
           None \<Rightarrow> None
         | Some (quot, rem) \<Rightarrow>
             Some (if q_is_neg then neg_n quot else quot,
                   if u_is_neg then neg_n rem else rem))"

definition sdivrem :: "u64 \<Rightarrow> u64 list \<Rightarrow> u64 list \<Rightarrow> (u64 list \<times> u64 list) option" where
  "sdivrem below u v = (if length u = 2 then sdivrem_u128 u v else sdivrem_n below u v)"

definition addmod :: "u64 \<Rightarrow> u64 list \<Rightarrow> u64 list \<Rightarrow> u64 list \<Rightarrow> u64 list option" where
  "addmod below x y mod' =
     (let s = add_with_carry_n x y False;
          n = (widen_uint 5 (fst s))[4 := of_bool (snd s)]
      in map_option snd (udivrem_n below n mod'))"

definition mulmod :: "u64 \<Rightarrow> u64 list \<Rightarrow> u64 list \<Rightarrow> u64 list \<Rightarrow> u64 list option" where
  "mulmod below x y mod' = map_option snd (udivrem_n below (umul_n x y) mod')"

section \<open>Text conversion\<close>

definition from_dec_digit :: "char \<Rightarrow> error + int" where
  "from_dec_digit c =
     (if (of_char c :: nat) < of_char CHR ''0'' \<or> (of_char c :: nat) > of_char CHR ''9''
      then Inl Invalid_argument
      else Inr (of_char c - of_char CHR ''0''))"

definition from_hex_digit :: "char \<Rightarrow> error + int" where
  "from_hex_digit c =
     (if (of_char c :: nat) \<ge> of_char CHR ''a'' \<and> (of_char c :: nat) \<le> of_char CHR ''f''
      then Inr (of_char c - (of_char CHR ''a'' - 10))
      else if (of_char c :: nat) \<ge> of_char CHR ''A'' \<and> (of_char c :: nat) \<le> of_char CHR ''F''
      then Inr (of_char c - (of_char CHR ''A'' - 10))
      else from_dec_digit c)"

text \<open>\<open>std::numeric_limits<uint<N>>::digits10\<close> is \<open>int(0.3010299956639812 * digits)\<close> with
  \<open>digits = 64 * n\<close>; the product is taken here in exact arithmetic.\<close>

definition digits10 :: "nat \<Rightarrow> int" where
  "digits10 n = (3010299956639812 * (64 * int n)) div 10000000000000000"

fun from_hex_loop :: "string \<Rightarrow> u64 list \<Rightarrow> int \<Rightarrow> error + u64 list" where
  "from_hex_loop [] x num_digits = Inr x"
| "from_hex_loop (c # s) x num_digits =
     (if num_digits + 1 > int (8 * length x * 2) then Inl Out_of_range
      else
        case from_hex_digit c of
          Inl e \<Rightarrow> Inl e
        | Inr d \<Rightarrow>
            from_hex_loop s (or_uint (lshift_uint x 4) (uint_of_u64 (length x) (of_int d)))
              (num_digits + 1))"

fun from_dec_loop :: "string \<Rightarrow> u64 list \<Rightarrow> int \<Rightarrow> error + u64 list" where
  "from_dec_loop [] x num_digits = Inr x"
| "from_dec_loop (c # s) x num_digits =
     (if num_digits > digits10 (length x) then Inl Out_of_range
      else
        case from_dec_digit c of
          Inl e \<Rightarrow> Inl e
        | Inr d \<Rightarrow>
            let n = length x;
                x' = add_uint (mul_uint x (uint_of_u64 n 10)) (uint_of_u64 n (of_int d))
            in if less_uint x' (uint_of_u64 n (of_int d)) then Inl Out_of_range
               else from_dec_loop s x' (num_digits + 1))"

text \<open>\<open>from_string<uint<N>>\<close> for \<open>N = 64 * n\<close>. The argument is a C string: it ends at its
  first NUL character.\<close>

definition from_string :: "nat \<Rightarrow> string \<Rightarrow> error + u64 list" where
  "from_string n str =
     (let s = takeWhile (\<lambda>c. c \<noteq> CHR 0x00) str
      in case s of
           c0 # c1 # rest \<Rightarrow>
             if c0 = CHR ''0'' \<and> c1 = CHR ''x'' then from_hex_loop rest (zero_uint n) 0
             else from_dec_loop s (zero_uint n) 0
         | _ \<Rightarrow> from_dec_loop s (zero_uint n) 0)"

text \<open>The loop of \<open>to_string\<close> collects the digits, least significant first; \<open>None\<close> is a
  run that does not return.\<close>

definition digit_char :: "int \<Rightarrow> char" where
  "digit_char d = char_of (if d < 10 then of_char CHR ''0'' + d else of_char CHR ''a'' + d - 10)"

partial_function (option) to_string_loop :: "u64 \<Rightarrow> u64 list \<Rightarrow> int \<Rightarrow> string \<Rightarrow> string option" where
  "to_string_loop below x base s =
     (if ne_uint x (zero_uint (length x))
      then
        case udivrem below x (uint_of_u64 (length x) (of_int base)) of
          None \<Rightarrow> None
        | Some (quot, rem) \<Rightarrow>
            let d = sint (ucast (rem ! 0) :: u32)
            in to_string_loop below quot base (s @ [digit_char d])
      else Some s)"

declare to_string_loop.simps [code]

definition to_string :: "u64 \<Rightarrow> u64 list \<Rightarrow> int \<Rightarrow> (error + string) option" where
  "to_string below x base =
     (if base < 2 \<or> base > 36 then Some (Inl Invalid_argument)
      else if eq_uint x (zero_uint (length x)) then Some (Inr ''0'')
      else map_option (\<lambda>s. Inr (rev s)) (to_string_loop below x base []))"


section \<open>Values of word arrays\<close>

lemma unat_lt64: "unat (w :: u64) < 2 ^ 64"
  using unsigned_less [of w] by simp

lemma unat_of_bool64: "unat (of_bool b :: u64) = of_bool b"
  by (cases b) simp_all

lemma val_bound: "val xs < 2 ^ (64 * length xs)"
proof (induction xs)
  case Nil
  then show ?case by simp
next
  case (Cons w ws)
  have "val ws + 1 \<le> 2 ^ (64 * length ws)" using Cons by simp
  then have "2 ^ 64 * (val ws + 1) \<le> (2::nat) ^ 64 * 2 ^ (64 * length ws)"
    by (rule mult_le_mono2)
  then show ?case using unat_lt64 [of w] by (simp add: power_add)
qed

lemma pow64_Cons: "(2::nat) ^ (64 * length (a # xs)) = 2 ^ 64 * 2 ^ (64 * length xs)"
  by (simp add: power_add)

lemma val_append: "val (xs @ ys) = val xs + 2 ^ (64 * length xs) * val ys"
proof (induction xs)
  case Nil
  then show ?case by simp
next
  case (Cons a xs)
  have "(2::nat) ^ (64 * length (a # xs)) = 2 ^ 64 * 2 ^ (64 * length xs)"
    by (simp add: power_add)
  then show ?case using Cons by (simp add: distrib_left mult.assoc)
qed

lemma val_replicate_zero: "val (replicate n 0) = 0"
  by (induction n) simp_all

lemma val_zero_uint: "val (zero_uint n) = 0"
  by (simp add: zero_uint_def val_replicate_zero)

lemma val_uint_of_u64: "val (uint_of_u64 n x) = unat x"
  by (simp add: uint_of_u64_def val_replicate_zero)

lemma length_uint_of_u64: "0 < n \<Longrightarrow> length (uint_of_u64 n x) = n"
  by (simp add: uint_of_u64_def)

lemma val_widen_uint: "val (widen_uint n x) = val x"
  by (simp add: widen_uint_def val_append val_replicate_zero)

lemma val_inject: "length xs = length ys \<Longrightarrow> val xs = val ys \<Longrightarrow> xs = ys"
proof (induction xs ys rule: list_induct2)
  case Nil
  then show ?case by simp
next
  case (Cons x xs y ys)
  from Cons.prems have "(unat x + 2 ^ 64 * val xs) mod 2 ^ 64 = (unat y + 2 ^ 64 * val ys) mod 2 ^ 64"
    by simp
  then have xy: "unat x = unat y"
    using unat_lt64 [of x] unat_lt64 [of y] by simp
  with Cons.prems have "val xs = val ys" by simp
  with Cons.IH xy show ?case by (simp add: word_unat_eq_iff)
qed

section \<open>Addition and subtraction\<close>

lemma add_step:
  fixes x y :: u64
  shows "unat (x + y + of_bool k) + 2 ^ 64 * of_bool (x + y + of_bool k < of_bool k \<or> x + y < x)
         = unat x + unat y + of_bool k"
  using unat_lt64 [of x] unat_lt64 [of y]
  by (cases k) (auto simp: word_less_nat_alt unat_word_ariths unat_of_bool64 mod_if not_less)

lemma sub_step:
  fixes x y :: u64
  shows "unat x + 2 ^ 64 * of_bool (x < y \<or> x - y < of_bool k)
         = unat (x - y - of_bool k) + unat y + of_bool k"
  using unat_lt64 [of x] unat_lt64 [of y]
  by (cases k) (auto simp: word_less_nat_alt unat_sub_if' unat_of_bool64 not_less)

lemma add_with_carry_n_val:
  "length x = length y \<Longrightarrow> add_with_carry_n x y k = (r, c) \<Longrightarrow>
     length r = length x \<and> val r + 2 ^ (64 * length x) * of_bool c = val x + val y + of_bool k"
proof (induction x y arbitrary: k r c rule: list_induct2)
  case Nil
  then show ?case by simp
next
  case (Cons x xs y ys)
  let ?k' = "x + y + of_bool k < of_bool k \<or> x + y < x"
  obtain r' where r': "add_with_carry_n xs ys ?k' = (r', c)" and r: "r = (x + y + of_bool k) # r'"
    using Cons.prems by (auto simp: Let_def split: prod.splits)
  from Cons.IH [OF r'] have len: "length r' = length xs"
    and v: "val r' + 2 ^ (64 * length xs) * of_bool c = val xs + val ys + of_bool ?k'"
    by simp_all
  have "val r + 2 ^ (64 * length (x # xs)) * of_bool c
      = unat (x + y + of_bool k) + 2 ^ 64 * (val r' + 2 ^ (64 * length xs) * of_bool c)"
    unfolding r pow64_Cons val.simps by (simp only: distrib_left mult.assoc add.assoc)
  also have "\<dots> = (unat (x + y + of_bool k) + 2 ^ 64 * of_bool ?k') + 2 ^ 64 * (val xs + val ys)"
    unfolding v by (simp only: distrib_left add.assoc add.left_commute)
  also have "\<dots> = unat x + unat y + of_bool k + 2 ^ 64 * (val xs + val ys)"
    by (simp only: add_step)
  also have "\<dots> = val (x # xs) + val (y # ys) + of_bool k"
    unfolding val.simps by (simp only: distrib_left add.assoc add.left_commute)
  finally show ?case using len r by simp
qed

lemma sub_with_carry_n_val:
  "length x = length y \<Longrightarrow> sub_with_carry_n x y k = (r, c) \<Longrightarrow>
     length r = length x \<and> val x + 2 ^ (64 * length x) * of_bool c = val r + val y + of_bool k"
proof (induction x y arbitrary: k r c rule: list_induct2)
  case Nil
  then show ?case by simp
next
  case (Cons x xs y ys)
  let ?k' = "x < y \<or> x - y < of_bool k"
  obtain r' where r': "sub_with_carry_n xs ys ?k' = (r', c)" and r: "r = (x - y - of_bool k) # r'"
    using Cons.prems by (auto simp: Let_def split: prod.splits)
  from Cons.IH [OF r'] have len: "length r' = length xs"
    and v: "val xs + 2 ^ (64 * length xs) * of_bool c = val r' + val ys + of_bool ?k'"
    by simp_all
  have "val (x # xs) + 2 ^ (64 * length (x # xs)) * of_bool c
      = unat x + 2 ^ 64 * (val xs + 2 ^ (64 * length xs) * of_bool c)"
    unfolding pow64_Cons val.simps by (simp only: distrib_left mult.assoc add.assoc)
  also have "\<dots> = (unat x + 2 ^ 64 * of_bool ?k') + 2 ^ 64 * (val r' + val ys)"
    unfolding v by (simp only: distrib_left add.assoc add.left_commute)
  also have "\<dots> = unat (x - y - of_bool k) + unat y + of_bool k + 2 ^ 64 * (val r' + val ys)"
    by (simp only: sub_step)
  also have "\<dots> = val r + val (y # ys) + of_bool k"
    unfolding r val.simps by (simp only: distrib_left add.assoc add.left_commute)
  finally show ?case using len r by simp
qed

lemma length_add_uint:
  assumes "length x = length y"
  shows "length (add_uint x y) = length x"
proof -
  obtain r c where rc: "add_with_carry_n x y False = (r, c)" by fastforce
  from add_with_carry_n_val [OF assms rc] rc show ?thesis by (simp add: add_uint_def)
qed

lemma length_sub_uint:
  assumes "length x = length y"
  shows "length (sub_uint x y) = length x"
proof -
  obtain r c where rc: "sub_with_carry_n x y False = (r, c)" by fastforce
  from sub_with_carry_n_val [OF assms rc] rc show ?thesis by (simp add: sub_uint_def)
qed

lemma val_add_uint:
  assumes "length x = length y"
  shows "val (add_uint x y) = (val x + val y) mod 2 ^ (64 * length x)"
proof -
  obtain r c where rc: "add_with_carry_n x y False = (r, c)" by fastforce
  from add_with_carry_n_val [OF assms rc]
  have len: "length r = length x" and v: "val r + 2 ^ (64 * length x) * of_bool c = val x + val y"
    by simp_all
  have "val r < 2 ^ (64 * length x)" using val_bound [of r] len by simp
  then have "val r = (val r + 2 ^ (64 * length x) * of_bool c) mod 2 ^ (64 * length x)" by simp
  then show ?thesis using rc v by (simp add: add_uint_def)
qed

lemma val_sub_uint:
  assumes "length x = length y"
  shows "val (sub_uint x y) = (val x + (2 ^ (64 * length x) - val y)) mod 2 ^ (64 * length x)"
proof -
  obtain r c where rc: "sub_with_carry_n x y False = (r, c)" by fastforce
  from sub_with_carry_n_val [OF assms rc]
  have len: "length r = length x" and v: "val x + 2 ^ (64 * length x) * of_bool c = val r + val y"
    by simp_all
  let ?B = "(2::nat) ^ (64 * length x)"
  have r: "val r < ?B" using val_bound [of r] len by simp
  have y: "val y < ?B" using val_bound [of y] assms by simp
  have x: "val x < ?B" using val_bound [of x] by simp
  have "val x + (?B - val y) = val r + ?B * of_bool (\<not> c)"
    using v r x y by (cases c) auto
  then have "(val x + (?B - val y)) mod ?B = val r" using r by simp
  then show ?thesis using rc by (simp add: sub_uint_def)
qed

lemma less_n_iff:
  assumes "length x = length y"
  shows "less_n x y \<longleftrightarrow> val x < val y"
proof -
  obtain r c where rc: "sub_with_carry_n x y False = (r, c)" by fastforce
  from sub_with_carry_n_val [OF assms rc]
  have len: "length r = length x" and v: "val x + 2 ^ (64 * length x) * of_bool c = val r + val y"
    by simp_all
  have r: "val r < 2 ^ (64 * length x)" using val_bound [of r] len by simp
  have x: "val x < 2 ^ (64 * length x)" using val_bound [of x] by simp
  show ?thesis using v r x rc by (cases c) (auto simp: less_n_def)
qed

lemma length2E: "length x = 2 \<Longrightarrow> (\<And>a b. x = [a, b] \<Longrightarrow> P) \<Longrightarrow> P"
  by (cases x; cases "tl x") auto

lemma length4E: "length x = 4 \<Longrightarrow> (\<And>a b c d. x = [a, b, c, d] \<Longrightarrow> P) \<Longrightarrow> P"
  by (cases x; cases "tl x"; cases "tl (tl x)"; cases "tl (tl (tl x))") auto

lemma lex_less_iff:
  fixes l1 l2 h1 h2 B :: nat
  assumes "l1 < B" "l2 < B"
  shows "(h1 < h2 \<or> (h1 = h2 \<and> l1 < l2)) \<longleftrightarrow> l1 + B * h1 < l2 + B * h2"
proof (cases h1 h2 rule: linorder_cases)
  case less
  then have "B * (h1 + 1) \<le> B * h2" by (intro mult_le_mono2) simp
  with assms less show ?thesis by simp
next
  case equal
  then show ?thesis by simp
next
  case greater
  then have "B * (h2 + 1) \<le> B * h1" by (intro mult_le_mono2) simp
  with assms greater show ?thesis by simp
qed

lemma less_u128_iff:
  assumes "length x = 2" "length y = 2"
  shows "less_u128 x y \<longleftrightarrow> val x < val y"
proof -
  from assms obtain a b c d where x: "x = [a, b]" and y: "y = [c, d]"
    by (elim length2E) blast
  show ?thesis
    using lex_less_iff [OF unat_lt64 [of a] unat_lt64 [of c], of "unat b" "unat d"]
    by (simp add: x y less_u128_def word_less_nat_alt word_unat_eq_iff)
qed

lemma eq_u128_iff: "length x = 2 \<Longrightarrow> length y = 2 \<Longrightarrow> eq_u128 x y \<longleftrightarrow> val x = val y"
  using val_inject [of x y] by (elim length2E) (auto simp: eq_u128_def)

lemma less_u256_iff:
  assumes "length x = 4" "length y = 4"
  shows "less_u256 x y \<longleftrightarrow> val x < val y"
proof -
  from assms obtain a b c d e f g h where x: "x = [a, b, c, d]" and y: "y = [e, f, g, h]"
    by (elim length4E) blast
  have vx: "val x = val [a, b] + 2 ^ 128 * val [c, d]"
    and vy: "val y = val [e, f] + 2 ^ 128 * val [g, h]"
    by (simp_all add: x y)
  have lo: "val [a, b] < 2 ^ 128" "val [e, f] < 2 ^ 128"
    using val_bound [of "[a, b]"] val_bound [of "[e, f]"] by simp_all
  have "less_u256 x y \<longleftrightarrow>
      (val [c, d] < val [g, h] \<or> (val [c, d] = val [g, h] \<and> val [a, b] < val [e, f]))"
    unfolding less_u256_def Let_def x y
    by (simp only: nth_Cons_0 nth_Cons_Suc nth_Cons_numeral less_u128_iff eq_u128_iff length_Cons list.size)
      simp
  also have "\<dots> \<longleftrightarrow> val x < val y"
    unfolding vx vy by (rule lex_less_iff [OF lo])
  finally show ?thesis .
qed

lemma less_uint_iff: "length x = length y \<Longrightarrow> less_uint x y \<longleftrightarrow> val x < val y"
  by (simp add: less_uint_def less_u128_iff less_u256_iff less_n_iff)

section \<open>Shifts by the width or more\<close>

lemma fold_or_zero_iff:
  "fold (\<lambda>w acc. acc OR w) ws (a :: u64) = 0 \<longleftrightarrow> a = 0 \<and> (\<forall>w \<in> set ws. w = 0)"
  by (induction ws arbitrary: a) (auto simp: or_eq_0_iff)

lemma high_words_fold_zero_iff:
  "high_words_fold shift = 0 \<longleftrightarrow> (\<forall>i. 0 < i \<and> i < length shift \<longrightarrow> shift ! i = 0)"
proof (cases shift)
  case Nil
  then show ?thesis by (simp add: high_words_fold_def)
next
  case (Cons a ws)
  have "(\<forall>w \<in> set ws. w = 0) \<longleftrightarrow> (\<forall>i. 0 < i \<and> i < Suc (length ws) \<longrightarrow> (a # ws) ! i = 0)"
  proof
    assume h: "\<forall>w \<in> set ws. w = 0"
    show "\<forall>i. 0 < i \<and> i < Suc (length ws) \<longrightarrow> (a # ws) ! i = 0"
    proof (intro allI impI)
      fix i assume "0 < i \<and> i < Suc (length ws)"
      then obtain j where "i = Suc j" "j < length ws" by (cases i) auto
      with h show "(a # ws) ! i = 0" by simp
    qed
  next
    assume h: "\<forall>i. 0 < i \<and> i < Suc (length ws) \<longrightarrow> (a # ws) ! i = 0"
    show "\<forall>w \<in> set ws. w = 0"
    proof
      fix w assume "w \<in> set ws"
      then obtain j where "j < length ws" "ws ! j = w" by (auto simp: in_set_conv_nth)
      with h [rule_format, of "Suc j"] show "w = 0" by simp
    qed
  qed
  then show ?thesis by (simp add: high_words_fold_def Cons fold_or_zero_iff)
qed

lemma lshift_uint_ge_width:
  assumes "64 * length x \<le> unat shift"
  shows "lshift_uint x shift = zero_uint (length x)"
proof -
  have "length x = 2 \<Longrightarrow> \<not> shift < 64 \<and> \<not> shift < 128"
    using assms by (simp add: word_less_nat_alt)
  moreover have "length x = 4 \<Longrightarrow> shift \<ge> 256"
    using assms by (simp add: word_le_nat_alt)
  ultimately show ?thesis
    using assms
    by (auto simp: lshift_uint_def lshift_u128_def lshift_u256_def lshift_n_def zero_uint_def
        numeral_2_eq_2)
qed

lemma rshift_uint_ge_width:
  assumes "64 * length x \<le> unat shift"
  shows "rshift_uint x shift = zero_uint (length x)"
proof -
  have "length x = 2 \<Longrightarrow> \<not> shift < 64 \<and> \<not> shift < 128"
    using assms by (simp add: word_less_nat_alt)
  moreover have "length x = 4 \<Longrightarrow> shift \<ge> 256"
    using assms by (simp add: word_le_nat_alt)
  ultimately show ?thesis
    using assms
    by (auto simp: rshift_uint_def rshift_u128_def rshift_u256_def rshift_n_def zero_uint_def
        numeral_2_eq_2)
qed

lemma val_high_words_zero:
  "(\<forall>i. 0 < i \<and> i < length shift \<longrightarrow> shift ! i = 0) \<Longrightarrow> shift \<noteq> [] \<Longrightarrow> val shift = unat (shift ! 0)"
proof (cases shift)
  case Nil
  assume "shift \<noteq> []"
  with Nil show ?thesis by simp
next
  case (Cons a ws)
  assume h: "\<forall>i. 0 < i \<and> i < length shift \<longrightarrow> shift ! i = 0"
  have "ws = replicate (length ws) 0"
  proof (rule nth_equalityI)
    show "length ws = length (replicate (length ws) (0::u64))" by simp
  next
    fix i assume "i < length ws"
    with h [rule_format, of "Suc i"] Cons show "ws ! i = replicate (length ws) 0 ! i" by simp
  qed
  then have "val ws = 0" using val_replicate_zero [of "length ws"] by simp
  with Cons show ?thesis by simp
qed

lemma lshift_by_uint_high_words:
  assumes "length shift = length x" "0 < i" "i < length shift" "shift ! i \<noteq> 0"
  shows "lshift_by_uint x shift = zero_uint (length x)"
proof (cases "length x = 2")
  case True
  with assms have "i = 1" by simp
  with assms True show ?thesis
    by (simp add: lshift_by_uint_def lshift_u128_by_u128_def zero_uint_def numeral_2_eq_2)
next
  case False
  from assms have "high_words_fold shift \<noteq> 0"
    unfolding high_words_fold_zero_iff by blast
  with False show ?thesis by (simp add: lshift_by_uint_def lshift_n_by_uint_def)
qed

lemma rshift_by_uint_high_words:
  assumes "length shift = length x" "0 < i" "i < length shift" "shift ! i \<noteq> 0"
  shows "rshift_by_uint x shift = zero_uint (length x)"
proof (cases "length x = 2")
  case True
  with assms have "i = 1" by simp
  with assms True show ?thesis
    by (simp add: rshift_by_uint_def rshift_u128_by_u128_def zero_uint_def numeral_2_eq_2)
next
  case False
  from assms have "high_words_fold shift \<noteq> 0"
    unfolding high_words_fold_zero_iff by blast
  with False show ?thesis by (simp add: rshift_by_uint_def rshift_n_by_uint_def)
qed

lemma shift_by_uint_ge_width:
  assumes len: "length shift = length x" and n: "2 \<le> length x" and ge: "64 * length x \<le> val shift"
  shows "lshift_by_uint x shift = zero_uint (length x) \<and> rshift_by_uint x shift = zero_uint (length x)"
proof (cases "\<forall>i. 0 < i \<and> i < length shift \<longrightarrow> shift ! i = 0")
  case True
  from n len have ne: "shift \<noteq> []" by auto
  from val_high_words_zero [OF True ne] ge have s0: "64 * length x \<le> unat (shift ! 0)" by simp
  have hw: "high_words_fold shift = 0" using True by (simp add: high_words_fold_zero_iff)
  have s1: "length x = 2 \<Longrightarrow> shift ! 1 = 0" using True len by simp
  show ?thesis
    using hw s1 lshift_uint_ge_width [OF s0] rshift_uint_ge_width [OF s0]
    by (auto simp: lshift_by_uint_def rshift_by_uint_def lshift_n_by_uint_def rshift_n_by_uint_def
        lshift_u128_by_u128_def rshift_u128_by_u128_def lshift_uint_def rshift_uint_def)
next
  case False
  then obtain i where "0 < i" "i < length shift" "shift ! i \<noteq> 0" by blast
  then show ?thesis
    using lshift_by_uint_high_words [OF len] rshift_by_uint_high_words [OF len] by blast
qed


section \<open>Bit operations on words as arithmetic\<close>

lemma or_disjoint_nat:
  fixes a b :: nat
  assumes "2 ^ n dvd a" "b < 2 ^ n"
  shows "a OR b = a + b"
proof -
  from assms(1) obtain a' where a: "a = push_bit n a'"
    by (auto simp: push_bit_eq_mult dvd_def mult.commute)
  from assms(2) have b: "b = take_bit n b" by (simp add: take_bit_nat_eq_self)
  have "a AND b = 0"
    by (rule bit_eqI) (subst a, subst b, auto simp: bit_simps)
  then show ?thesis by (simp add: disjunctive_add_eq_or)
qed

lemma unat_or_disjoint:
  fixes a b :: u64
  assumes "2 ^ n dvd unat a" "unat b < 2 ^ n"
  shows "unat (a OR b) = unat a + unat b"
  using or_disjoint_nat [OF assms] by (simp add: unsigned_or_eq)

lemma unat_drop_bit64: "unat (drop_bit n (x :: u64)) = unat x div 2 ^ n"
  unfolding unat_drop_bit_eq by (simp add: drop_bit_eq_div)

lemma unat_push_bit64: "unat (push_bit n (x :: u64)) = (unat x * 2 ^ n) mod 2 ^ 64"
  unfolding unsigned_push_bit_eq by (simp add: push_bit_eq_mult take_bit_eq_mod)

lemma unat_and_mask32: "unat ((x :: u64) AND 0xffffffff) = unat x mod 2 ^ 32"
proof -
  have "(0xffffffff :: u64) = mask 32" by (simp add: mask_eq_exp_minus_1)
  then have "x AND 0xffffffff = take_bit 32 x" by (simp only: take_bit_eq_mask)
  moreover have "unat (take_bit 32 x) = take_bit 32 (unat x)" by (rule unsigned_take_bit_eq)
  moreover have "take_bit 32 (unat x) = unat x mod 2 ^ 32" by (rule take_bit_eq_mod)
  ultimately show ?thesis by (simp only:)
qed

lemma unat_mult64: "unat a * unat b < 2 ^ 64 \<Longrightarrow> unat (a * b :: u64) = unat a * unat b"
  by (simp add: unat_word_ariths)

lemma unat_add64: "unat a + unat b < 2 ^ 64 \<Longrightarrow> unat (a + b :: u64) = unat a + unat b"
  by (simp add: unat_word_ariths)

section \<open>The product of two words\<close>

lemma split_product:
  fixes B xl xh yl yh :: nat
  defines "t0 \<equiv> xl * yl" and "t1 \<equiv> xh * yl" and "t2 \<equiv> xl * yh" and "t3 \<equiv> xh * yh"
  defines "u1 \<equiv> t1 + t0 div B"
  defines "u2 \<equiv> t2 + u1 mod B"
  shows "(xh * B + xl) * (yh * B + yl) = (t3 + u2 div B + u1 div B) * (B * B) + ((u2 mod B) * B + t0 mod B)"
proof -
  define q0 r0 q1 r1 q2 r2 where "q0 = t0 div B" and "r0 = t0 mod B" and "q1 = u1 div B"
    and "r1 = u1 mod B" and "q2 = u2 div B" and "r2 = u2 mod B"
  have e0: "xl * yl = q0 * B + r0" by (simp add: q0_def r0_def t0_def)
  have e1: "t1 + q0 = q1 * B + r1" by (simp add: q1_def r1_def u1_def q0_def)
  have e2: "t2 + r1 = q2 * B + r2" by (simp add: q2_def r2_def u2_def r1_def)
  have e1': "(t1 + q0) * B = q1 * (B * B) + r1 * B"
    by (simp only: e1) (simp add: algebra_simps)
  have e2': "(t2 + r1) * B = q2 * (B * B) + r2 * B"
    by (simp only: e2) (simp add: algebra_simps)
  have "(xh * B + xl) * (yh * B + yl) = t3 * (B * B) + (t1 + t2) * B + xl * yl"
    by (simp add: t1_def t2_def t3_def algebra_simps)
  also have "\<dots> = t3 * (B * B) + (t1 + t2) * B + (q0 * B + r0)"
    by (simp only: e0)
  also have "\<dots> = t3 * (B * B) + (t1 + q0) * B + t2 * B + r0"
    by (simp add: algebra_simps)
  also have "\<dots> = t3 * (B * B) + (q1 * (B * B) + r1 * B) + t2 * B + r0"
    by (simp only: e1')
  also have "\<dots> = t3 * (B * B) + q1 * (B * B) + (t2 + r1) * B + r0"
    by (simp add: algebra_simps)
  also have "\<dots> = t3 * (B * B) + q1 * (B * B) + (q2 * (B * B) + r2 * B) + r0"
    by (simp only: e2')
  also have "\<dots> = (t3 + q2 + q1) * (B * B) + (r2 * B + r0)"
    by (simp add: algebra_simps)
  finally show ?thesis
    by (simp only: q0_def r0_def q1_def r1_def q2_def r2_def)
qed

lemma umul_val: "val (umul x y) = unat x * unat y"
proof -
  define xl xh yl yh where "xl = unat x mod 2 ^ 32" and "xh = unat x div 2 ^ 32"
    and "yl = unat y mod 2 ^ 32" and "yh = unat y div 2 ^ 32"
  define B :: nat where "B = 2 ^ 32"
  have B: "0 < B" "B * B = 2 ^ 64" by (simp_all add: B_def)
  have xl: "xl < B" and yl: "yl < B" by (simp_all add: xl_def yl_def B_def)
  have xh: "xh < B" using unat_lt64 [of x] by (simp add: xh_def B_def)
  have yh: "yh < B" using unat_lt64 [of y] by (simp add: yh_def B_def)
  have prod_lt: "a * b < B * B" if "a < B" "b < B" for a b :: nat
    using that B(1) by (intro mult_strict_mono) simp_all
  define t0 t1 t2 t3 where "t0 = xl * yl" and "t1 = xh * yl" and "t2 = xl * yh" and "t3 = xh * yh"
  define u1 where "u1 = t1 + t0 div B"
  define u2 where "u2 = t2 + u1 mod B"
  have le: "a * b \<le> (B - 1) * (B - 1)" if "a < B" "b < B" for a b :: nat
    using that by (intro mult_mono) simp_all
  have sq: "(B - 1) * (B - 1) + (B - 1) < B * B"
    by (simp add: B_def)
  have t0_lt: "t0 < B * B" unfolding t0_def by (rule prod_lt [OF xl yl])
  have t0d: "t0 div B < B" using t0_lt B(1) by (simp add: less_mult_imp_div_less)
  have u1_lt: "u1 < B * B"
    using le [OF xh yl] t0d sq by (simp add: u1_def t1_def)
  have u2_lt: "u2 < B * B"
    using le [OF xl yh] mod_less_divisor [OF B(1), of u1] sq by (simp add: u2_def t2_def)
  have split: "unat x * unat y = (t3 + u2 div B + u1 div B) * (B * B) + ((u2 mod B) * B + t0 mod B)"
    using split_product [of xh B xl yh yl]
    by (simp add: xl_def xh_def yl_def yh_def B_def t0_def t1_def t2_def t3_def u1_def u2_def)
  have lo_lt: "(u2 mod B) * B + t0 mod B < B * B"
  proof -
    have "(u2 mod B) * B + t0 mod B < (u2 mod B) * B + B" using B(1) by simp
    also have "\<dots> = (u2 mod B + 1) * B" by simp
    also have "\<dots> \<le> B * B" using mod_less_divisor [OF B(1), of u2] by (intro mult_le_mono1) simp
    finally show ?thesis .
  qed
  have "unat x * unat y < 2 ^ 64 * 2 ^ 64"
    using unat_lt64 [of x] unat_lt64 [of y] by (intro mult_strict_mono) simp_all
  then have hi_lt: "t3 + u2 div B + u1 div B < B * B"
    using split B(2) by (metis add_lessD1 mult_less_cancel2)
  have wxl: "unat (x AND 0xffffffff) = xl" and wxh: "unat (drop_bit 32 x) = xh"
    and wyl: "unat (y AND 0xffffffff) = yl" and wyh: "unat (drop_bit 32 y) = yh"
    by (simp_all add: unat_and_mask32 unat_drop_bit64 xl_def xh_def yl_def yh_def)
  have m64: "unat (a * b :: u64) = unat a * unat b" if "unat a * unat b < B * B" for a b
    using that by (simp add: unat_mult64 B(2))
  have a64: "unat (a + b :: u64) = unat a + unat b" if "unat a + unat b < B * B" for a b
    using that by (simp add: unat_add64 B(2))
  have wt0: "unat ((x AND 0xffffffff) * (y AND 0xffffffff)) = t0"
    using prod_lt [OF xl yl] by (simp add: m64 wxl wyl t0_def)
  have wt1: "unat (drop_bit 32 x * (y AND 0xffffffff)) = t1"
    using prod_lt [OF xh yl] by (simp add: m64 wxh wyl t1_def)
  have wt2: "unat ((x AND 0xffffffff) * drop_bit 32 y) = t2"
    using prod_lt [OF xl yh] by (simp add: m64 wxl wyh t2_def)
  have wt3: "unat (drop_bit 32 x * drop_bit 32 y) = t3"
    using prod_lt [OF xh yh] by (simp add: m64 wxh wyh t3_def)
  define u1w where "u1w = drop_bit 32 x * (y AND 0xffffffff)
      + drop_bit 32 ((x AND 0xffffffff) * (y AND 0xffffffff))"
  define u2w where "u2w = (x AND 0xffffffff) * drop_bit 32 y + (u1w AND 0xffffffff)"
  have wu1: "unat u1w = u1"
    unfolding u1w_def using u1_lt
    by (subst a64) (simp_all add: wt1 unat_drop_bit64 wt0 u1_def B_def)
  have wu2: "unat u2w = u2"
    unfolding u2w_def using u2_lt
    by (subst a64) (simp_all add: wt2 unat_and_mask32 wu1 u2_def B_def)
  have "(u2 * B) mod (B * B) = (u2 mod B) * B"
    by (simp add: mult_mod_left)
  then have wp: "unat (push_bit 32 u2w) = (u2 mod B) * B"
    by (simp add: unat_push_bit64 wu2 B_def)
  have wlo: "unat (push_bit 32 u2w OR ((x AND 0xffffffff) * (y AND 0xffffffff) AND 0xffffffff))
      = (u2 mod B) * B + t0 mod B"
    by (subst unat_or_disjoint [where n = 32]) (simp_all add: wp unat_and_mask32 wt0 B_def)
  have whi: "unat (drop_bit 32 x * drop_bit 32 y + drop_bit 32 u2w + drop_bit 32 u1w)
      = t3 + u2 div B + u1 div B"
  proof -
    have 1: "unat (drop_bit 32 x * drop_bit 32 y + drop_bit 32 u2w) = t3 + u2 div B"
      using hi_lt by (subst a64) (simp_all add: wt3 unat_drop_bit64 wu2 B_def)
    show ?thesis
      using hi_lt by (subst a64) (simp_all add: 1 unat_drop_bit64 wu1 B_def)
  qed
  have "umul x y = [push_bit 32 u2w OR ((x AND 0xffffffff) * (y AND 0xffffffff) AND 0xffffffff),
      drop_bit 32 x * drop_bit 32 y + drop_bit 32 u2w + drop_bit 32 u1w]"
    by (simp add: umul_def Let_def u1w_def u2w_def)
  then have "val (umul x y) = ((u2 mod B) * B + t0 mod B) + 2 ^ 64 * (t3 + u2 div B + u1 div B)"
    by (simp only: val.simps wlo whi) simp
  also have "\<dots> = unat x * unat y"
    by (simp only: split B(2) [symmetric]) (simp add: mult.commute)
  finally show ?thesis .
qed

lemma length_umul: "length (umul x y) = 2"
  by (simp add: umul_def Let_def)

lemma umul_nth:
  "unat (umul x y ! 0) = (unat x * unat y) mod 2 ^ 64"
  "unat (umul x y ! 1) = (unat x * unat y) div 2 ^ 64"
proof -
  obtain a b where ab: "umul x y = [a, b]"
    using length_umul [of x y] by (elim length2E)
  have e: "unat x * unat y = unat a + 2 ^ 64 * unat b"
    using umul_val [of x y] by (simp add: ab)
  have "(unat x * unat y) mod 2 ^ 64 = unat a" "(unat x * unat y) div 2 ^ 64 = unat b"
    using unat_lt64 [of a] by (simp_all add: e)
  then show "unat (umul x y ! 0) = (unat x * unat y) mod 2 ^ 64"
    "unat (umul x y ! 1) = (unat x * unat y) div 2 ^ 64"
    by (simp_all add: ab)
qed


section \<open>Schoolbook multiplication\<close>

lemma val_nth_split:
  "i < length p \<Longrightarrow> val p = val (take i p) + 2 ^ (64 * i) * (unat (p ! i) + 2 ^ 64 * val (drop (Suc i) p))"
proof -
  assume i: "i < length p"
  then have "p = take i p @ (p ! i # drop (Suc i) p)"
    by (simp add: id_take_nth_drop [symmetric])
  then have "val p = val (take i p @ (p ! i # drop (Suc i) p))" by simp
  also have "\<dots> = val (take i p) + 2 ^ (64 * length (take i p)) * val (p ! i # drop (Suc i) p)"
    by (rule val_append)
  finally show ?thesis using i by simp
qed

lemma val_list_update:
  assumes "i < length p"
  shows "val (p[i := w]) + 2 ^ (64 * i) * unat (p ! i) = val p + 2 ^ (64 * i) * unat w"
proof -
  have 1: "val p = val (take i p) + 2 ^ (64 * i) * (unat (p ! i) + 2 ^ 64 * val (drop (Suc i) p))"
    by (rule val_nth_split [OF assms])
  have "val (p[i := w]) = val (take i (p[i := w]))
      + 2 ^ (64 * i) * (unat (p[i := w] ! i) + 2 ^ 64 * val (drop (Suc i) (p[i := w])))"
    by (rule val_nth_split) (simp add: assms)
  then have 2: "val (p[i := w]) = val (take i p) + 2 ^ (64 * i) * (unat w + 2 ^ 64 * val (drop (Suc i) p))"
    using assms by simp
  show ?thesis unfolding 1 2 by (simp only: distrib_left add.assoc add.left_commute)
qed

lemma val2: "length a = 2 \<Longrightarrow> val a = unat (a ! 0) + 2 ^ 64 * unat (a ! 1)"
  by (erule length2E) simp

lemma val2_nth:
  assumes "length a = 2"
  shows "unat (a ! 0) = val a mod 2 ^ 64" "unat (a ! 1) = val a div 2 ^ 64"
  using unat_lt64 [of "a ! 0"] by (simp_all add: val2 [OF assms])

lemma word_sq_bound:
  fixes a b c k :: nat
  assumes "a < 2 ^ 64" "b < 2 ^ 64" "c < 2 ^ 64" "k < 2 ^ 64"
  shows "a * b + c + k < 2 ^ 128"
proof -
  have "a * b \<le> (2 ^ 64 - 1) * (2 ^ 64 - 1)"
    using assms by (intro mult_mono) simp_all
  moreover have "c + k \<le> 2 * (2 ^ 64 - 1)" using assms by simp
  ultimately have "a * b + c + k \<le> (2 ^ 64 - 1) * (2 ^ 64 - 1) + 2 * (2 ^ 64 - 1 :: nat)" by simp
  also have "\<dots> < 2 ^ 128" by simp
  finally show ?thesis .
qed

lemma muladd_val:
  defines "t \<equiv> \<lambda>a b c k. add_uint (add_uint (umul a b) [c, 0]) [k, 0]"
  shows "length (t a b c k) = 2" "val (t a b c k) = unat a * unat b + unat c + unat k"
proof -
  have l1: "length (add_uint (umul a b) [c, 0]) = 2"
    by (simp add: length_add_uint length_umul)
  then show "length (t a b c k) = 2" by (simp add: t_def length_add_uint)
  have lt: "unat a * unat b + unat c + unat k < 2 ^ 128"
    by (rule word_sq_bound) (rule unat_lt64)+
  have "val (add_uint (umul a b) [c, 0]) = (unat a * unat b + unat c) mod 2 ^ 128"
    by (simp add: val_add_uint length_umul umul_val)
  also have "\<dots> = unat a * unat b + unat c" using lt by simp
  finally have v1: "val (add_uint (umul a b) [c, 0]) = unat a * unat b + unat c" .
  have "val (t a b c k) = (unat a * unat b + unat c + unat k) mod 2 ^ 128"
    unfolding t_def by (simp add: val_add_uint l1 v1)
  then show "val (t a b c k) = unat a * unat b + unat c + unat k" using lt by simp
qed

lemma umul_inner_spec:
  assumes "i + cnt \<le> length x" "i + j + cnt \<le> length p"
  shows "case umul_inner x yj j i cnt k p of (p', k') \<Rightarrow>
           length p' = length p \<and>
           (\<forall>l. l < i + j \<or> i + j + cnt \<le> l \<longrightarrow> p' ! l = p ! l) \<and>
           val p' + 2 ^ (64 * (i + j + cnt)) * unat k'
             = val p + 2 ^ (64 * (i + j)) * (unat k + unat yj * val (take cnt (drop i x)))"
  using assms
proof (induction cnt arbitrary: i k p)
  case 0
  then show ?case by simp
next
  case (Suc cnt)
  define t where "t = add_uint (add_uint (umul (x ! i) yj) [p ! (i + j), 0]) [k, 0]"
  define p1 where "p1 = p[i + j := t ! 0]"
  define W :: nat where "W = 2 ^ (64 * (i + j))"
  have tl: "length t = 2" and tv: "val t = unat (x ! i) * unat yj + unat (p ! (i + j)) + unat k"
    unfolding t_def by (rule muladd_val)+
  have t01: "unat (t ! 0) + 2 ^ 64 * unat (t ! 1) = unat (x ! i) * unat yj + unat (p ! (i + j)) + unat k"
    using val2 [OF tl] tv by simp
  have ij: "i + j < length p" and i: "i < length x" using Suc.prems by simp_all
  have step: "umul_inner x yj j i (Suc cnt) k p = umul_inner x yj j (Suc i) cnt (t ! 1) p1"
    by (simp add: t_def p1_def Let_def)
  have up: "val p1 + W * unat (p ! (i + j)) = val p + W * unat (t ! 0)"
    unfolding p1_def W_def by (rule val_list_update [OF ij])
  obtain p' k' where res: "umul_inner x yj j (Suc i) cnt (t ! 1) p1 = (p', k')" by fastforce
  have "Suc i + cnt \<le> length x" "Suc i + j + cnt \<le> length p1"
    using Suc.prems by (simp_all add: p1_def)
  from Suc.IH [OF this, of "t ! 1"] res
  have len: "length p' = length p1"
    and same: "\<forall>l. l < Suc i + j \<or> Suc i + j + cnt \<le> l \<longrightarrow> p' ! l = p1 ! l"
    and v: "val p' + 2 ^ (64 * (Suc i + j + cnt)) * unat k'
             = val p1 + 2 ^ (64 * (Suc i + j)) * (unat (t ! 1) + unat yj * val (take cnt (drop (Suc i) x)))"
    by simp_all
  have W': "(2::nat) ^ (64 * (Suc i + j)) = W * 2 ^ 64"
    by (simp add: W_def power_add)
  define K :: nat where "K = 2 ^ (64 * (i + j + Suc cnt))"
  have K': "(2::nat) ^ (64 * (Suc i + j + cnt)) = K"
    by (simp add: K_def)
  have tk: "take (Suc cnt) (drop i x) = x ! i # take cnt (drop (Suc i) x)"
    using i by (simp add: Cons_nth_drop_Suc [symmetric])
  define R where "R = val (take cnt (drop (Suc i) x))"
  have v': "val p' + K * unat k' = val p1 + W * 2 ^ 64 * (unat (t ! 1) + unat yj * R)"
    using v unfolding K' W' R_def .
  have "val p' + K * unat k' + W * unat (p ! (i + j))
      = val p1 + W * unat (p ! (i + j)) + W * 2 ^ 64 * (unat (t ! 1) + unat yj * R)"
    by (simp only: v' add.assoc add.commute add.left_commute)
  also have "\<dots> = val p + W * unat (t ! 0) + W * 2 ^ 64 * (unat (t ! 1) + unat yj * R)"
    by (simp only: up)
  also have "\<dots> = val p + W * (unat (t ! 0) + 2 ^ 64 * unat (t ! 1)) + W * 2 ^ 64 * (unat yj * R)"
    by (simp only: distrib_left mult.assoc add.assoc)
  also have "\<dots> = val p + W * (unat (x ! i) * unat yj + unat (p ! (i + j)) + unat k) + W * 2 ^ 64 * (unat yj * R)"
    by (simp only: t01)
  also have "\<dots> = val p + W * (unat k + unat yj * (unat (x ! i) + 2 ^ 64 * R)) + W * unat (p ! (i + j))"
    by (simp only: distrib_left mult.assoc add.assoc add.commute add.left_commute mult.commute mult.left_commute)
  finally have "val p' + K * unat k' = val p + W * (unat k + unat yj * (unat (x ! i) + 2 ^ 64 * R))"
    by simp
  then have main: "val p' + 2 ^ (64 * (i + j + Suc cnt)) * unat k'
      = val p + 2 ^ (64 * (i + j)) * (unat k + unat yj * val (take (Suc cnt) (drop i x)))"
    by (simp only: tk val.simps R_def W_def K_def)
  have same': "\<forall>l. l < i + j \<or> i + j + Suc cnt \<le> l \<longrightarrow> p' ! l = p ! l"
    using same by (auto simp: p1_def)
  show ?case
    unfolding step res using len same' main by (simp add: p1_def)
qed


lemma val_take_Suc:
  "j < length y \<Longrightarrow> val (take (Suc j) y) = val (take j y) + 2 ^ (64 * j) * unat (y ! j)"
  by (simp add: take_Suc_conv_app_nth val_append)

lemma val_take_drop: "val y = val (take j y) + 2 ^ (64 * min (length y) j) * val (drop j y)"
  using val_append [of "take j y" "drop j y"] by simp

lemma mod_eqI_nat:
  fixes a b c M :: nat
  shows "a < M \<Longrightarrow> a + M * c = b \<Longrightarrow> a = b mod M"
  by auto

lemma umul_outer_spec:
  assumes "length p = 2 * length x" "j + cnt = length x" "length y = length x"
    "val p = val x * val (take j y)"
    "\<forall>l. length x + j \<le> l \<and> l < 2 * length x \<longrightarrow> p ! l = 0"
  shows "length (umul_outer x y j cnt p) = 2 * length x \<and> val (umul_outer x y j cnt p) = val x * val y"
  using assms
proof (induction cnt arbitrary: j p)
  case 0
  then show ?case by simp
next
  case (Suc cnt)
  define n where "n = length x"
  have j: "j < n" using Suc.prems by (simp add: n_def)
  obtain p' k where res: "umul_inner x (y ! j) j 0 n 0 p = (p', k)" by fastforce
  have "0 + n \<le> length x" "0 + j + n \<le> length p" using Suc.prems j by (simp_all add: n_def)
  from umul_inner_spec [where yj = "y ! j" and k = 0, OF this] res
  have len: "length p' = length p"
    and same: "\<forall>l. l < j \<or> j + n \<le> l \<longrightarrow> p' ! l = p ! l"
    and v: "val p' + 2 ^ (64 * (j + n)) * unat k = val p + 2 ^ (64 * j) * (unat (y ! j) * val x)"
    by (simp_all add: n_def)
  define p'' where "p'' = p'[j + n := k]"
  have jn: "j + n < length p'" using len Suc.prems j by (simp add: n_def)
  have z: "p' ! (j + n) = 0"
    using same Suc.prems(5) j by (simp add: n_def add.commute)
  have "val p'' + 2 ^ (64 * (j + n)) * unat (p' ! (j + n)) = val p' + 2 ^ (64 * (j + n)) * unat k"
    unfolding p''_def by (rule val_list_update [OF jn])
  then have "val p'' = val p + 2 ^ (64 * j) * (unat (y ! j) * val x)"
    using v z by simp
  also have "\<dots> = val x * (val (take j y) + 2 ^ (64 * j) * unat (y ! j))"
    unfolding Suc.prems(4) by (simp only: distrib_left mult.assoc mult.commute mult.left_commute)
  also have "\<dots> = val x * val (take (Suc j) y)"
    using j Suc.prems(3) by (simp add: val_take_Suc n_def)
  finally have v'': "val p'' = val x * val (take (Suc j) y)" .
  have z'': "\<forall>l. length x + Suc j \<le> l \<and> l < 2 * length x \<longrightarrow> p'' ! l = 0"
    using same Suc.prems(5) by (auto simp: p''_def n_def)
  have step: "umul_outer x y j (Suc cnt) p = umul_outer x y (Suc j) cnt p''"
    using res by (simp add: p''_def n_def)
  have "length p'' = 2 * length x" using len Suc.prems by (simp add: p''_def)
  from Suc.IH [OF this _ Suc.prems(3) v'' z''] Suc.prems(2)
  show ?case unfolding step by simp
qed

lemma umul_n_val:
  assumes "length y = length x"
  shows "length (umul_n x y) = 2 * length x" "val (umul_n x y) = val x * val y"
  using umul_outer_spec [of "zero_uint (2 * length x)" x 0 "length x" y] assms
  by (simp_all add: umul_n_def val_zero_uint) (simp_all add: zero_uint_def)

lemma unat_muladd_word:
  fixes a b c k :: u64
  shows "unat (a + (b * c + k)) = (unat a + unat b * unat c + unat k) mod 2 ^ 64"
proof -
  have "unat (a + (b * c + k)) = (unat a + (unat b * unat c mod 2 ^ 64 + unat k) mod 2 ^ 64) mod 2 ^ 64"
    by (simp add: unat_word_ariths)
  also have "\<dots> = (unat a + (unat b * unat c + unat k)) mod 2 ^ 64"
    by (simp only: mod_add_left_eq mod_add_right_eq)
  finally show ?thesis by (simp add: add.assoc)
qed

lemma mul_outer_spec:
  assumes "length p = length x" "j + cnt = length x" "length y = length x"
    "val p = (val x * val (take j y)) mod 2 ^ (64 * length x)"
  shows "length (mul_outer x y j cnt p) = length x
       \<and> val (mul_outer x y j cnt p) = (val x * val y) mod 2 ^ (64 * length x)"
  using assms
proof (induction cnt arbitrary: j p)
  case 0
  then show ?case by simp
next
  case (Suc cnt)
  define n where "n = length x"
  define m where "m = n - j - 1"
  have j: "j < n" using Suc.prems by (simp add: n_def)
  have n1: "n - 1 = j + m" "n = Suc (j + m)" using j by (simp_all add: m_def)
  define M H J Q :: nat where "M = 2 ^ (64 * n)" and "H = 2 ^ (64 * (j + m))"
    and "J = 2 ^ (64 * j)" and "Q = 2 ^ (64 * m)"
  have MH: "M = H * 2 ^ 64" by (simp add: M_def H_def n1(2) power_add)
  have HJ: "H = J * Q" by (simp add: H_def J_def Q_def power_add distrib_left)
  obtain p' k where res: "umul_inner x (y ! j) j 0 m 0 p = (p', k)" by fastforce
  have "0 + m \<le> length x" "0 + j + m \<le> length p" using Suc.prems j by (simp_all add: n_def m_def)
  from umul_inner_spec [where yj = "y ! j" and k = 0, OF this] res
  have len: "length p' = length p"
    and same: "\<forall>l. l < j \<or> j + m \<le> l \<longrightarrow> p' ! l = p ! l"
    and v: "val p' + H * unat k = val p + J * (unat (y ! j) * val (take m x))"
    by (simp_all add: H_def J_def)
  define a where "a = p' ! (j + m)"
  define w where "w = a + (x ! m * y ! j + k)"
  define S where "S = unat a + unat (x ! m) * unat (y ! j) + unat k"
  define p'' where "p'' = p'[j + m := w]"
  have w: "unat w = S mod 2 ^ 64" unfolding w_def S_def by (rule unat_muladd_word)
  have jm: "j + m < length p'" using len Suc.prems j by (simp add: n_def m_def)
  have up: "val p'' + H * unat a = val p' + H * unat w"
    unfolding p''_def a_def H_def by (rule val_list_update [OF jm])
  have Sw: "H * S = H * unat w + M * (S div 2 ^ 64)"
  proof -
    have "S = unat w + 2 ^ 64 * (S div 2 ^ 64)" unfolding w by simp
    then have "H * S = H * (unat w + 2 ^ 64 * (S div 2 ^ 64))" by simp
    then show ?thesis by (simp only: MH distrib_left mult.assoc)
  qed
  have mx: "m < length x" using j by (simp add: m_def n_def)
  have tx: "val (take (Suc m) x) = val (take m x) + Q * unat (x ! m)"
    unfolding Q_def by (rule val_take_Suc [OF mx])
  have xsplit: "val x = val (take (Suc m) x) + (Q * 2 ^ 64) * val (drop (Suc m) x)"
  proof -
    have "min (length x) (Suc m) = Suc m" using mx by simp
    then have "(2::nat) ^ (64 * min (length x) (Suc m)) = Q * 2 ^ 64"
      by (simp add: Q_def power_add)
    then show ?thesis using val_take_drop [of x "Suc m"] by simp
  qed
  obtain q where q: "val x * val (take j y) = val p + M * q"
    unfolding Suc.prems(4) M_def n_def
    by (metis add.commute mult_div_mod_eq)
  define D where "D = val (drop (Suc m) x)"
  define Y where "Y = unat (y ! j)"
  have "val p'' + M * (S div 2 ^ 64) + H * unat a + H * unat w = val p' + H * unat w + (H * unat w + M * (S div 2 ^ 64))"
    using up by simp
  also have "\<dots> = val p' + H * S + H * unat w" by (simp only: Sw [symmetric] add.assoc add.commute add.left_commute)
  finally have "val p'' + M * (S div 2 ^ 64) + H * unat a = val p' + H * S" by simp
  also have "\<dots> = (val p' + H * unat k) + H * unat a + H * (unat (x ! m) * Y)"
    unfolding S_def Y_def by (simp only: distrib_left add.assoc add.commute add.left_commute)
  also have "\<dots> = val p + J * (Y * val (take m x)) + H * unat a + H * (unat (x ! m) * Y)"
    by (simp only: v Y_def)
  also have "\<dots> = val p + J * (Y * (val (take m x) + Q * unat (x ! m))) + J * Q * unat a"
    by (simp only: HJ distrib_left mult.assoc add.assoc add.commute add.left_commute mult.commute mult.left_commute)
  finally have e1: "val p'' + M * (S div 2 ^ 64) = val p + J * (Y * val (take (Suc m) x))"
    unfolding tx HJ by simp
  have "val x * val (take (Suc j) y) = val x * val (take j y) + J * (Y * val x)"
    using j Suc.prems(3) unfolding Y_def J_def
    by (simp add: val_take_Suc n_def distrib_left mult.assoc mult.left_commute)
  also have "\<dots> = val p + M * q + J * (Y * (val (take (Suc m) x) + (Q * 2 ^ 64) * D))"
    unfolding q D_def using xsplit by simp
  also have "\<dots> = (val p + J * (Y * val (take (Suc m) x))) + M * q + M * (Y * D)"
    unfolding MH HJ
    by (simp only: distrib_left mult.assoc add.assoc add.commute add.left_commute mult.commute mult.left_commute)
  also have "\<dots> = val p'' + M * (S div 2 ^ 64 + q + Y * D)"
    unfolding e1 [symmetric] by (simp only: distrib_left add.assoc)
  finally have e2: "val p'' + M * (S div 2 ^ 64 + q + Y * D) = val x * val (take (Suc j) y)" ..
  have lp'': "length p'' = length x" using len Suc.prems by (simp add: p''_def)
  have "val p'' < M" using val_bound [of p''] lp'' by (simp add: M_def n_def)
  from mod_eqI_nat [OF this e2]
  have v'': "val p'' = (val x * val (take (Suc j) y)) mod 2 ^ (64 * length x)"
    by (simp add: M_def n_def)
  have step: "mul_outer x y j (Suc cnt) p = mul_outer x y (Suc j) cnt p''"
    using res n1 by (simp add: Let_def p''_def w_def a_def flip: n_def m_def)
  from Suc.IH [OF lp'' _ Suc.prems(3) v''] Suc.prems(2)
  show ?case unfolding step by simp
qed

lemma mul_n_val:
  assumes "length y = length x"
  shows "length (mul_n x y) = length x" "val (mul_n x y) = (val x * val y) mod 2 ^ (64 * length x)"
  using mul_outer_spec [of "zero_uint (length x)" x 0 "length x" y] assms
  by (simp_all add: mul_n_def val_zero_uint) (simp_all add: zero_uint_def)


lemma mul_u128_val:
  assumes "length x = 2" "length y = 2"
  shows "length (mul_u128 x y) = 2" "val (mul_u128 x y) = (val x * val y) mod 2 ^ 128"
proof -
  from assms obtain x0 x1 y0 y1 where x: "x = [x0, x1]" and y: "y = [y0, y1]"
    by (elim length2E) blast
  define p where "p = umul x0 y0"
  define S where "S = unat (p ! 1) + unat x0 * unat y1 + unat x1 * unat y0"
  define w where "w = p ! 1 + (x0 * y1 + x1 * y0)"
  have r: "mul_u128 x y = [p ! 0, w]"
    by (simp add: mul_u128_def x y p_def w_def Let_def)
  then show "length (mul_u128 x y) = 2" by simp
  have "unat w = (unat (p ! 1) + (unat x0 * unat y1 mod 2 ^ 64 + unat x1 * unat y0 mod 2 ^ 64) mod 2 ^ 64) mod 2 ^ 64"
    unfolding w_def by (simp add: unat_word_ariths)
  also have "\<dots> = (unat (p ! 1) + (unat x0 * unat y1 + unat x1 * unat y0)) mod 2 ^ 64"
    by (simp only: mod_add_left_eq mod_add_right_eq mod_add_eq)
  finally have w: "unat w = S mod 2 ^ 64" by (simp add: S_def add.assoc)
  have pv: "unat (p ! 0) + 2 ^ 64 * unat (p ! 1) = unat x0 * unat y0"
    using val2 [of p] umul_val [of x0 y0] length_umul [of x0 y0] by (simp add: p_def)
  define B :: nat where "B = 2 ^ 64"
  have Sw: "S = unat w + B * (S div B)" unfolding w B_def by simp
  have "val x * val y = (unat x0 + B * unat x1) * (unat y0 + B * unat y1)"
    by (simp add: x y B_def)
  also have "\<dots> = unat x0 * unat y0 + B * (unat x0 * unat y1 + unat x1 * unat y0) + B * B * (unat x1 * unat y1)"
    by (simp add: algebra_simps)
  also have "\<dots> = unat (p ! 0) + B * S + B * B * (unat x1 * unat y1)"
    unfolding pv [symmetric] S_def B_def [symmetric] by (simp add: algebra_simps)
  also have "\<dots> = unat (p ! 0) + B * (unat w + B * (S div B)) + B * B * (unat x1 * unat y1)"
    using Sw by simp
  also have "\<dots> = (unat (p ! 0) + B * unat w) + B * B * (S div B + unat x1 * unat y1)"
    by (simp add: algebra_simps)
  finally have e: "val (mul_u128 x y) + 2 ^ 128 * (S div B + unat x1 * unat y1) = val x * val y"
    by (simp add: r B_def)
  have "val (mul_u128 x y) < 2 ^ 128"
    using val_bound [of "mul_u128 x y"] by (simp add: r)
  from mod_eqI_nat [OF this e] show "val (mul_u128 x y) = (val x * val y) mod 2 ^ 128" .
qed

lemma mul_uint_val:
  assumes "length y = length x"
  shows "length (mul_uint x y) = length x"
    "val (mul_uint x y) = (val x * val y) mod 2 ^ (64 * length x)"
  using assms mul_u128_val [of x y] mul_n_val [of y x]
  by (auto simp: mul_uint_def)

lemma val_replicate_max: "val (replicate n (NOT 0)) + 1 = 2 ^ (64 * n)"
proof (induction n)
  case 0
  then show ?case by simp
next
  case (Suc n)
  have "unat (NOT 0 :: u64) = 2 ^ 64 - 1" by (simp add: unsigned_minus_1_eq_mask mask_eq_exp_minus_1)
  then have "val (replicate (Suc n) (NOT 0)) + 1 = 2 ^ 64 * (val (replicate n (NOT 0)) + 1)"
    by simp
  then show ?case by (simp only: Suc power_add [symmetric]) simp
qed

section \<open>Arithmetic modulo \<open>2 ^ N\<close>\<close>

text \<open>
  Claim C3. For values \<open>x\<close>, \<open>y\<close> of one width of \<open>n\<close> words (\<open>N = 64 * n\<close>), \<open>operator+\<close>,
  binary \<open>operator-\<close> and \<open>operator*\<close> return a value of that width that denotes the exact
  sum, difference and product modulo \<open>2 ^ N\<close>; the functions are total, so no input fails;
  the all-ones value plus 1 is 0.
\<close>

theorem uint_arith_wraps:
  assumes "length x = n" "length y = n"
  shows "length (add_uint x y) = n \<and> val (add_uint x y) = (val x + val y) mod 2 ^ (64 * n)
       \<and> length (sub_uint x y) = n
       \<and> int (val (sub_uint x y)) = (int (val x) - int (val y)) mod 2 ^ (64 * n)
       \<and> length (mul_uint x y) = n \<and> val (mul_uint x y) = (val x * val y) mod 2 ^ (64 * n)
       \<and> (0 < n \<longrightarrow> add_uint (replicate n (NOT 0)) (uint_of_u64 n 1) = zero_uint n)"
proof -
  let ?B = "(2::nat) ^ (64 * n)"
  have y: "val y < ?B" using val_bound [of y] assms by simp
  have "int (val (sub_uint x y)) = int ((val x + (?B - val y)) mod ?B)"
    using assms by (simp add: val_sub_uint)
  also have "\<dots> = (int (val x) + (int ?B - int (val y))) mod int ?B"
    using y by (simp add: zmod_int of_nat_diff algebra_simps)
  also have "\<dots> = (int (val x) - int (val y) + int ?B) mod int ?B"
    by (simp add: algebra_simps)
  also have "\<dots> = (int (val x) - int (val y)) mod int ?B"
    by simp
  finally have sub: "int (val (sub_uint x y)) = (int (val x) - int (val y)) mod 2 ^ (64 * n)"
    by simp
  have ones: "add_uint (replicate n (NOT 0)) (uint_of_u64 n 1) = zero_uint n" if "0 < n"
  proof (rule val_inject)
    have l: "length (replicate n (NOT 0 :: u64)) = length (uint_of_u64 n 1)"
      using that by (simp add: length_uint_of_u64)
    show "length (add_uint (replicate n (NOT 0)) (uint_of_u64 n 1)) = length (zero_uint n)"
      using l by (simp add: length_add_uint zero_uint_def)
    have "val (add_uint (replicate n (NOT 0)) (uint_of_u64 n 1))
        = (val (replicate n (NOT 0)) + 1) mod ?B"
      using l by (simp add: val_add_uint val_uint_of_u64)
    also have "\<dots> = 0" by (simp only: val_replicate_max) simp
    finally show "val (add_uint (replicate n (NOT 0)) (uint_of_u64 n 1)) = val (zero_uint n)"
      by (simp add: val_zero_uint)
  qed
  show ?thesis
    using assms sub ones
    by (simp add: length_add_uint length_sub_uint val_add_uint mul_uint_val)
qed

theorem uint_arith_wraps_witness:
  "val (add_uint [0xFFFFFFFFFFFFFFFF, 0xFFFFFFFFFFFFFFFF] [1, 0]) = 0
   \<and> val (mul_uint [0, 1] [0, 1]) = 0
   \<and> int (val (sub_uint [0, 0] [1, 0])) = 2 ^ 128 - 1"
  using uint_arith_wraps [of "[0xFFFFFFFFFFFFFFFF, 0xFFFFFFFFFFFFFFFF]" 2 "[1, 0]"]
    uint_arith_wraps [of "[0, 1]" 2 "[0, 1]"] uint_arith_wraps [of "[0, 0]" 2 "[1, 0]"]
  by simp

section \<open>Ordering\<close>

text \<open>
  Claim C8. For values \<open>x\<close>, \<open>y\<close> of one width, the template's \<open>x < y\<close> is the borrow of
  \<open>sub_with_carry(x, y)\<close>, it holds exactly when the value of \<open>x\<close> is below the value of \<open>y\<close>,
  and the \<open>uint128\<close> and \<open>uint256\<close> overloads return the same boolean at their widths.
\<close>

theorem less_is_borrow:
  assumes "length x = length y"
  shows "less_n x y = snd (sub_with_carry_n x y False)
       \<and> (less_n x y \<longleftrightarrow> val x < val y)
       \<and> (length x = 2 \<longrightarrow> less_u128 x y = less_n x y)
       \<and> (length x = 4 \<longrightarrow> less_u256 x y = less_n x y)
       \<and> (less_uint x y \<longleftrightarrow> val x < val y)"
  using assms by (simp add: less_n_def [symmetric] less_n_iff less_u128_iff less_u256_iff less_uint_iff)

theorem less_is_borrow_witness:
  "less_n [5, 7] [3, 8] \<and> less_u128 [5, 7] [3, 8] \<and> less_u256 [5, 7, 0, 1] [3, 8, 0, 1]
   \<and> less_n [5, 7, 0, 1] [3, 8, 0, 1]"
  using less_is_borrow [of "[5, 7]" "[3, 8]"] less_is_borrow [of "[5, 7, 0, 1]" "[3, 8, 0, 1]"]
  by simp

section \<open>Shifts\<close>

text \<open>
  Claim C5. For a value \<open>x\<close> of \<open>n \<ge> 2\<close> words (\<open>N = 64 * n\<close>): a shift left or right by a
  64-bit amount \<open>s \<ge> N\<close> is 0; a shift by an amount that is itself a \<open>uint<N>\<close> is 0 when a
  word of the amount above word 0 is non-zero, and when the amount denotes a number \<open>\<ge> N\<close>.
\<close>

theorem shift_ge_width_zero:
  assumes "2 \<le> length x"
  shows "(64 * length x \<le> unat s \<longrightarrow>
            lshift_uint x s = zero_uint (length x) \<and> rshift_uint x s = zero_uint (length x))
       \<and> (length shift = length x \<and> (\<exists>i. 0 < i \<and> i < length shift \<and> shift ! i \<noteq> 0) \<longrightarrow>
            lshift_by_uint x shift = zero_uint (length x) \<and> rshift_by_uint x shift = zero_uint (length x))
       \<and> (length shift = length x \<and> 64 * length x \<le> val shift \<longrightarrow>
            lshift_by_uint x shift = zero_uint (length x) \<and> rshift_by_uint x shift = zero_uint (length x))"
  using assms lshift_uint_ge_width [of x s] rshift_uint_ge_width [of x s]
    lshift_by_uint_high_words [of shift x] rshift_by_uint_high_words [of shift x]
    shift_by_uint_ge_width [of shift x]
  by blast

theorem shift_ge_width_zero_witness:
  "lshift_uint [2, 0, 0, 0] 256 = [0, 0, 0, 0] \<and> rshift_uint [2, 0, 0, 0] 256 = [0, 0, 0, 0]
   \<and> lshift_by_uint [2, 0, 0] [1, 0, 1] = [0, 0, 0] \<and> rshift_by_uint [2, 0, 0] [192, 0, 0] = [0, 0, 0]"
  using shift_ge_width_zero [of "[2, 0, 0, 0]" 256 "[0, 0, 0, 0]"]
    shift_ge_width_zero [of "[2, 0, 0]" 0 "[1, 0, 1]"] shift_ge_width_zero [of "[2, 0, 0]" 0 "[192, 0, 0]"]
  by (simp add: zero_uint_def)


section \<open>Division of two words by one normalized word\<close>

text \<open>The arithmetic of \<open>udivrem_2by1\<close> over the integers: \<open>\<beta>\<close> is the word base,
  \<open>k = \<beta>\<^sup>2 - (\<beta> + v) d\<close> the error of the reciprocal, \<open>rt\<close> the candidate remainder.\<close>

lemma div2by1_core:
  fixes \<beta> d v u1 u0 q1 q0 k :: int
  assumes d: "0 < d" "d < \<beta>" "\<beta> \<le> 2 * d"
    and u1: "0 \<le> u1" "u1 < d" and u0: "0 \<le> u0" "u0 < \<beta>"
    and q0: "0 \<le> q0" "q0 < \<beta>"
    and k: "(\<beta> + v) * d = \<beta> * \<beta> - k" "0 < k" "k \<le> d"
    and q: "u1 * (\<beta> + v) + u0 = q1 * \<beta> + q0"
  defines "rt \<equiv> u1 * \<beta> + u0 - (q1 + 1) * d"
  shows "- d \<le> rt" and "rt < 0 \<Longrightarrow> q0 < rt + \<beta>" and "0 \<le> rt \<Longrightarrow> q0 < rt \<Longrightarrow> rt < \<beta> - d"
    and "rt < 2 * d" and "rt < \<beta>"
proof -
  have E: "\<beta> * (rt + d) = u1 * k + u0 * (\<beta> - d) + q0 * d"
  proof -
    have "\<beta> * (rt + d) = u1 * (\<beta> * \<beta>) + u0 * \<beta> - (q1 * \<beta>) * d"
      by (simp add: rt_def algebra_simps)
    also have "\<dots> = u1 * ((\<beta> + v) * d + k) + u0 * \<beta> - (u1 * (\<beta> + v) + u0 - q0) * d"
      using k(1) q by (simp add: algebra_simps)
    also have "\<dots> = u1 * k + u0 * (\<beta> - d) + q0 * d"
      by (simp add: algebra_simps)
    finally show ?thesis .
  qed
  have b: "0 < \<beta>" using d by simp
  have t1: "0 \<le> u1 * k" using u1 k by simp
  have t2: "0 \<le> u0 * (\<beta> - d)" using u0 d by simp
  have t3: "0 \<le> q0 * d" using q0 d by simp
  have "0 \<le> \<beta> * (rt + d)" using E t1 t2 t3 by simp
  then have "0 \<le> rt + d" using b by (simp add: zero_le_mult_iff)
  then show lower: "- d \<le> rt" by simp
  have u1k: "u1 * k \<le> (d - 1) * d"
    using u1 k by (intro mult_mono) simp_all
  have u0b: "u0 * (\<beta> - d) \<le> (\<beta> - 1) * (\<beta> - d)"
    using u0 d by (intro mult_right_mono) simp_all
  have q0d: "q0 * d \<le> (\<beta> - 1) * d"
    using q0 d by (intro mult_right_mono) simp_all
  have ub: "\<beta> * (rt + d) \<le> d * d - d + \<beta> * \<beta> - \<beta>"
  proof -
    have "\<beta> * (rt + d) \<le> (d - 1) * d + (\<beta> - 1) * (\<beta> - d) + (\<beta> - 1) * d"
      using E u1k u0b q0d by simp
    also have "\<dots> = d * d - d + \<beta> * \<beta> - \<beta>" by (simp add: algebra_simps)
    finally show ?thesis .
  qed
  show "q0 < rt + \<beta>" if "rt < 0"
  proof (rule ccontr)
    assume "\<not> q0 < rt + \<beta>"
    then have le: "rt \<le> q0 - \<beta>" by simp
    have neg: "q0 - \<beta> < 0" using q0 by simp
    have "\<beta> * rt \<le> \<beta> * (q0 - \<beta>)" using le b by (intro mult_left_mono) simp_all
    moreover have "(q0 - \<beta>) * \<beta> < (q0 - \<beta>) * d"
      using neg d by (intro mult_strict_left_mono_neg) simp_all
    moreover have "(q0 - \<beta>) * d \<le> \<beta> * rt"
    proof -
      have "q0 * d \<le> \<beta> * (rt + d)" using E t1 t2 by simp
      then show ?thesis by (simp add: algebra_simps)
    qed
    ultimately show False by (simp add: algebra_simps)
  qed
  show "rt < \<beta> - d" if "0 \<le> rt" "q0 < rt"
  proof (rule ccontr)
    assume "\<not> rt < \<beta> - d"
    then have ge: "\<beta> - d \<le> rt" by simp
    have "q0 * d \<le> (rt - 1) * d" using that d by (intro mult_right_mono) simp_all
    then have "\<beta> * (rt + d) \<le> (d - 1) * d + (\<beta> - 1) * (\<beta> - d) + (rt - 1) * d"
      using E u1k u0b by simp
    then have "rt * (\<beta> - d) \<le> (\<beta> - d) * (\<beta> - d) - (\<beta> + d)"
      by (simp add: algebra_simps)
    moreover have "(\<beta> - d) * (\<beta> - d) \<le> rt * (\<beta> - d)"
      using ge d by (intro mult_right_mono) simp_all
    ultimately show False using b d by simp
  qed
  have sq: "(\<beta> - d) * (\<beta> - d) \<le> d * (\<beta> - d)"
    using d by (intro mult_right_mono) simp_all
  show "rt < 2 * d"
  proof (rule ccontr)
    assume "\<not> rt < 2 * d"
    then have "\<beta> * (3 * d) \<le> \<beta> * (rt + d)" using b by (intro mult_left_mono) simp_all
    with ub have "3 * \<beta> * d \<le> d * d - d + \<beta> * \<beta> - \<beta>" by (simp add: algebra_simps)
    moreover have "\<beta> * \<beta> + d * d \<le> 3 * \<beta> * d - d * d"
      using sq by (simp add: algebra_simps)
    moreover have "0 < d * d" using d by simp
    ultimately show False using b d by simp
  qed
  show "rt < \<beta>"
  proof (rule ccontr)
    assume "\<not> rt < \<beta>"
    then have "\<beta> * (\<beta> + d) \<le> \<beta> * (rt + d)" using b by (intro mult_left_mono) simp_all
    with ub have "\<beta> * d \<le> d * d - d - \<beta>" by (simp add: algebra_simps)
    moreover have "d * d \<le> \<beta> * d" using d by (intro mult_right_mono) simp_all
    ultimately show False using b d by simp
  qed
qed


lemma uint_word_of_int64: "0 \<le> k \<Longrightarrow> k < 2 ^ 64 \<Longrightarrow> uint (word_of_int k :: u64) = k"
  by (simp add: uint_word_of_int take_bit_eq_mod)

lemma uint_lt64: "uint (w :: u64) < 2 ^ 64"
  using uint_bounded [of w] by simp

lemma word_of_int_add_mult64: "(word_of_int (a + b * 2 ^ 64) :: u64) = word_of_int a"
  unfolding word_of_int_eq_iff by (simp add: take_bit_eq_mod)

lemma uint_val2: "int (val [a, b]) = uint a + 2 ^ 64 * uint b"
  by simp

lemma udivrem_2by1_correct:
  assumes norm: "2 ^ 63 \<le> unat d"
    and rec: "(2 ^ 64 + unat v) * unat d < 2 ^ 128" "2 ^ 128 \<le> (2 ^ 64 + unat v + 1) * unat d"
    and u1d: "unat u1 < unat d"
  shows "case udivrem_2by1 [u0, u1] d v of
           (q, r) \<Rightarrow> unat u0 + 2 ^ 64 * unat u1 = unat q * unat d + unat r \<and> unat r < unat d"
proof -
  define \<beta> :: int where "\<beta> = 2 ^ 64"
  define D V U1 U0 where "D = uint d" and "V = uint v" and "U1 = uint u1" and "U0 = uint u0"
  define k where "k = \<beta> * \<beta> - (\<beta> + V) * D"
  have b: "\<beta> = 2 ^ 64" "\<beta> * \<beta> = 2 ^ 128" by (simp_all add: \<beta>_def)
  have D: "0 < D" "D < \<beta>" "\<beta> \<le> 2 * D"
    using norm uint_lt64 [of d] by (simp_all add: D_def \<beta>_def uint_nat del: of_nat_unat)
  have U1: "0 \<le> U1" "U1 < D" using u1d by (simp_all add: U1_def D_def uint_nat del: of_nat_unat)
  have U0: "0 \<le> U0" "U0 < \<beta>" using uint_lt64 [of u0] by (simp_all add: U0_def \<beta>_def)
  have V: "0 \<le> V" by (simp add: V_def)
  have "int ((2 ^ 64 + unat v) * unat d) < int (2 ^ 128)" using rec(1) by (simp only: of_nat_less_iff)
  then have r1: "(\<beta> + V) * D < \<beta> * \<beta>" by (simp add: \<beta>_def V_def D_def uint_nat del: of_nat_unat)
  have "int (2 ^ 128) \<le> int ((2 ^ 64 + unat v + 1) * unat d)" using rec(2) by (simp only: of_nat_le_iff)
  then have r2: "\<beta> * \<beta> \<le> (\<beta> + V + 1) * D" by (simp add: \<beta>_def V_def D_def uint_nat del: of_nat_unat)
  have k: "(\<beta> + V) * D = \<beta> * \<beta> - k" "0 < k" "k \<le> D"
    using r1 r2 by (simp_all add: k_def algebra_simps)
  define P where "P = U1 * (\<beta> + V) + U0"
  have P_lt: "P < \<beta> * \<beta>"
  proof -
    have "U1 * (\<beta> + V) \<le> (D - 1) * (\<beta> + V)" using U1 V b by (intro mult_right_mono) simp_all
    then have "P \<le> (\<beta> + V) * D - (\<beta> + V) + U0" by (simp add: P_def algebra_simps)
    then show ?thesis using r1 U0 V by simp
  qed
  have P_ge: "0 \<le> P" using U1 U0 V b by (simp add: P_def)
  define qq where "qq = add_uint (umul v u1) [u0, u1]"
  have qql: "length qq = 2" by (simp add: qq_def length_add_uint length_umul)
  have "val qq = (unat v * unat u1 + (unat u0 + 2 ^ 64 * unat u1)) mod 2 ^ 128"
    by (simp add: qq_def val_add_uint length_umul umul_val)
  then have "int (val qq) = (V * U1 + (U0 + \<beta> * U1)) mod (\<beta> * \<beta>)"
    by (simp add: V_def U1_def U0_def b zmod_int uint_nat del: of_nat_unat)
  also have "\<dots> = P mod (\<beta> * \<beta>)" by (simp add: P_def algebra_simps)
  also have "\<dots> = P" using P_lt P_ge by simp
  finally have qqv: "int (val qq) = P" .
  define Q0 Q1 where "Q0 = uint (qq ! 0)" and "Q1 = uint (qq ! 1)"
  have PQ: "P = Q1 * \<beta> + Q0"
    using qqv val2 [OF qql] by (simp add: Q0_def Q1_def \<beta>_def uint_nat del: of_nat_unat)
  have Q0: "0 \<le> Q0" "Q0 < \<beta>" using uint_lt64 [of "qq ! 0"] by (simp_all add: Q0_def \<beta>_def)
  have Q1: "0 \<le> Q1" by (simp add: Q1_def)
  define rt where "rt = U1 * \<beta> + U0 - (Q1 + 1) * D"
  note core = div2by1_core [OF D U1 U0 Q0 k, of Q1, folded rt_def, OF PQ [unfolded P_def]]
  define q1w where "q1w = qq ! 1 + 1"
  define rw where "rw = u0 - q1w * d"
  have q1w: "q1w = word_of_int (Q1 + 1)" by (simp add: q1w_def Q1_def)
  have "rw = word_of_int (U0 - (Q1 + 1) * D)"
    by (simp add: rw_def q1w U0_def D_def Q1_def)
  also have "\<dots> = word_of_int (rt + (- U1) * 2 ^ 64)" by (simp add: rt_def \<beta>_def)
  also have "\<dots> = word_of_int rt" by (rule word_of_int_add_mult64)
  finally have rw: "rw = word_of_int rt" .
  have dw: "d = word_of_int D" by (simp add: D_def)
  have res: "udivrem_2by1 [u0, u1] d v =
      (let (q1, r) = (if rw > qq ! 0 then (q1w - 1, rw + d) else (q1w, rw))
       in if r \<ge> d then (q1 + 1, r - d) else (q1, r))"
    by (simp add: udivrem_2by1_def Let_def qq_def q1w_def rw_def split: prod.splits)
  have U: "U0 + \<beta> * U1 = (Q1 + 1) * D + rt" by (simp add: rt_def)
  have fin: "unat u0 + 2 ^ 64 * unat u1 = unat q * unat d + unat r \<and> unat r < unat d"
    if "q = word_of_int qf" "r = word_of_int rf" "U0 + \<beta> * U1 = qf * D + rf" "0 \<le> rf" "rf < D"
    for q r :: u64 and qf rf
  proof -
    have "qf * D \<le> U0 + \<beta> * U1" using that by simp
    also have "\<dots> < \<beta> + \<beta> * (D - 1)"
      using U0 U1 b by (intro add_less_le_mono mult_left_mono) simp_all
    finally have "qf * D < \<beta> * D" by (simp add: algebra_simps)
    then have qf_lt: "qf < \<beta>" using D by (simp add: mult_less_cancel_right)
    have qf_ge: "0 \<le> qf"
    proof (rule ccontr)
      assume "\<not> 0 \<le> qf"
      then have "qf * D \<le> (- 1) * D" using D by (intro mult_right_mono) simp_all
      then have "U0 + \<beta> * U1 < 0" using that by simp
      then show False using U0 U1 b by (simp add: \<beta>_def)
    qed
    have uq: "uint q = qf" using qf_ge qf_lt by (simp add: that(1) uint_word_of_int64 \<beta>_def)
    have ur: "uint r = rf" using that D by (simp add: uint_word_of_int64 \<beta>_def)
    have "int (unat u0 + 2 ^ 64 * unat u1) = int (unat q * unat d + unat r)"
      using that(3) uq [symmetric] ur [symmetric] by (simp add: U0_def U1_def D_def \<beta>_def uint_nat del: of_nat_unat)
    then have "unat u0 + 2 ^ 64 * unat u1 = unat q * unat d + unat r"
      by (simp only: of_nat_eq_iff)
    moreover have "unat r < unat d" using ur that(5) by (simp add: D_def uint_nat del: of_nat_unat)
    ultimately show ?thesis by simp
  qed
  show ?thesis
  proof (cases "rt < 0")
    case True
    have urw: "uint rw = rt + \<beta>"
    proof -
      have "rw = word_of_int (rt + 1 * 2 ^ 64)" unfolding rw by (rule word_of_int_add_mult64 [symmetric])
      then have "rw = word_of_int (rt + \<beta>)" by (simp only: \<beta>_def mult_1)
      moreover have "uint (word_of_int (rt + \<beta>) :: u64) = rt + \<beta>"
        using core(1) D True by (intro uint_word_of_int64) (simp_all add: \<beta>_def)
      ultimately show ?thesis by (simp only:)
    qed
    have c1: "rw > qq ! 0" using core(2) [OF True] urw by (simp add: word_less_def Q0_def)
    have r': "rw + d = word_of_int (rt + D)" by (simp add: rw dw)
    have ur': "uint (rw + d) = rt + D"
      unfolding r' using core(1) True D by (intro uint_word_of_int64) (simp_all add: \<beta>_def)
    have c2: "\<not> rw + d \<ge> d" using ur' True by (simp add: word_le_def D_def)
    have e: "udivrem_2by1 [u0, u1] d v = (q1w - 1, rw + d)" using c1 c2 by (simp add: res)
    have 1: "q1w - 1 = word_of_int Q1" by (simp add: q1w)
    have 2: "U0 + \<beta> * U1 = Q1 * D + (rt + D)" using U by (simp add: algebra_simps)
    have 3: "0 \<le> rt + D" "rt + D < D" using core(1) True by simp_all
    show ?thesis unfolding e prod.case by (rule fin [OF 1 r' 2 3])
  next
    case False
    then have rt0: "0 \<le> rt" by simp
    have urw: "uint rw = rt" unfolding rw using rt0 core(5) by (intro uint_word_of_int64) (simp_all add: \<beta>_def)
    show ?thesis
    proof (cases "rw > qq ! 0")
      case True
      then have "Q0 < rt" using urw by (simp add: word_less_def Q0_def)
      from core(3) [OF rt0 this] have lt: "rt < \<beta> - D" .
      have r': "rw + d = word_of_int (rt + D)" by (simp add: rw dw)
      have ur': "uint (rw + d) = rt + D"
        unfolding r' using rt0 lt D by (intro uint_word_of_int64) (simp_all add: \<beta>_def)
      have c2: "rw + d \<ge> d" using ur' rt0 by (simp add: word_le_def D_def)
      have "udivrem_2by1 [u0, u1] d v = (q1w - 1 + 1, rw + d - d)" using True c2 by (simp add: res)
      then have e: "udivrem_2by1 [u0, u1] d v = (q1w, rw)" by simp
      have 3: "rt < D" using lt D by simp
      show ?thesis unfolding e prod.case by (rule fin [OF q1w rw U rt0 3])
    next
      case nc1: False
      show ?thesis
      proof (cases "rw \<ge> d")
        case True
        then have ge: "D \<le> rt" using urw by (simp add: word_le_def D_def)
        have e: "udivrem_2by1 [u0, u1] d v = (q1w + 1, rw - d)" using nc1 True by (simp add: res)
        have 1: "q1w + 1 = word_of_int (Q1 + 2)" by (simp add: q1w)
        have 2: "rw - d = word_of_int (rt - D)" by (simp add: rw dw)
        have 3: "U0 + \<beta> * U1 = (Q1 + 2) * D + (rt - D)" using U by (simp add: algebra_simps)
        have 4: "0 \<le> rt - D" "rt - D < D" using ge core(4) by simp_all
        show ?thesis unfolding e prod.case by (rule fin [OF 1 2 3 4])
      next
        case False
        then have lt: "rt < D" using urw by (simp add: word_le_def D_def)
        have e: "udivrem_2by1 [u0, u1] d v = (q1w, rw)" using nc1 False by (simp add: res)
        show ?thesis unfolding e prod.case by (rule fin [OF q1w rw U rt0 lt])
      qed
    qed
  qed
qed


section \<open>The reciprocal of a normalized word\<close>

text \<open>The steps of \<open>reciprocal_2by1\<close> over the integers. \<open>a\<close> is \<open>d40\<close>, \<open>q\<close> is \<open>d9\<close>.\<close>

lemma sq_le_bound:
  fixes z c :: int
  assumes "- c \<le> z" "z \<le> c"
  shows "z * z \<le> c * c"
proof -
  have "\<bar>z\<bar> \<le> \<bar>c\<bar>" using assms by simp
  then have "z\<^sup>2 \<le> c\<^sup>2" by (simp only: abs_le_square_iff)
  then show ?thesis by (simp add: power2_eq_square)
qed

lemma recip_step0:
  fixes q v0 a :: int
  assumes q: "256 \<le> q" "q \<le> 511" and v0: "v0 = 523520 div q"
    and a: "q * 2 ^ 31 + 1 \<le> a" "a \<le> (q + 1) * 2 ^ 31"
  defines "z \<equiv> 2 ^ 50 - v0 * a"
  shows "1024 \<le> v0" "v0 \<le> 2045" "z * z \<le> 1633284 * 2 ^ 62"
proof -
  have q0: "0 < q" using q by simp
  have m: "v0 * q \<le> 523520" "523520 < v0 * q + q"
  proof -
    have "523520 = q * v0 + 523520 mod q" by (simp add: v0)
    moreover have "0 \<le> (523520 :: int) mod q" "(523520 :: int) mod q < q"
      using q0 by simp_all
    ultimately show "v0 * q \<le> 523520" "523520 < v0 * q + q"
      by (simp_all add: mult.commute)
  qed
  show lo: "1024 \<le> v0"
  proof (rule ccontr)
    assume "\<not> 1024 \<le> v0"
    then have "v0 + 1 \<le> 1024" by simp
    then have A: "(v0 + 1) * q \<le> 1024 * q" using q0 by (intro mult_right_mono) simp_all
    have B: "(v0 + 1) * q = v0 * q + q" by (simp add: algebra_simps)
    from A [unfolded B] m(2) q show False by linarith
  qed
  show hi: "v0 \<le> 2045"
  proof (rule ccontr)
    assume "\<not> v0 \<le> 2045"
    then have "2046 * q \<le> v0 * q" using q0 by (intro mult_right_mono) simp_all
    with m(1) q show False by linarith
  qed
  have v00: "0 \<le> v0" using lo by simp
  have "v0 * a \<le> v0 * ((q + 1) * 2 ^ 31)" using a v00 by (intro mult_left_mono) simp_all
  also have "\<dots> = (v0 * q + v0) * 2 ^ 31" by (simp add: algebra_simps)
  also have "\<dots> \<le> (523520 + 2045) * 2 ^ 31" using m(1) hi by (intro mult_right_mono) simp_all
  finally have z_lo: "- (1277 * 2 ^ 31) \<le> z" by (simp add: z_def)
  have "(523520 - q + 1) * 2 ^ 31 \<le> (v0 * q) * 2 ^ 31" using m(2) by (intro mult_right_mono) simp_all
  also have "\<dots> = v0 * (q * 2 ^ 31)" by (simp add: algebra_simps)
  also have "\<dots> \<le> v0 * a" using a v00 by (intro mult_left_mono) simp_all
  finally have "(523520 - q + 1) * 2 ^ 31 \<le> v0 * a" .
  then have z_hi: "z \<le> 1278 * 2 ^ 31" using q by (simp add: z_def)
  have "z * z \<le> (1278 * 2 ^ 31) * (1278 * 2 ^ 31)"
    using z_lo z_hi by (intro sq_le_bound) simp_all
  then show "z * z \<le> 1633284 * 2 ^ 62" by simp
qed

lemma recip_step1:
  fixes v0 a w v1 :: int
  assumes v0: "1024 \<le> v0" "v0 \<le> 2045" and a: "2 ^ 39 < a" "a \<le> 2 ^ 40"
    and z: "(2 ^ 50 - v0 * a) * (2 ^ 50 - v0 * a) \<le> 1633284 * 2 ^ 62"
    and w: "w = (v0 * v0 * a) div 2 ^ 40" and v1: "v1 = 2 ^ 11 * v0 - w - 1"
  defines "e1 \<equiv> 2 ^ 60 - v1 * a"
  shows "0 \<le> w" "w < 2 ^ 22" "0 < e1" "e1 \<le> 1895428 * 2 ^ 22" "0 < v1" "v1 < 2 ^ 21"
proof -
  define t where "t = v0 * v0 * a - 2 ^ 40 * w"
  have t: "0 \<le> t" "t < 2 ^ 40"
    unfolding t_def w by (simp_all add: minus_mult_div_eq_mod)
  have a0: "0 < a" using a by simp
  have vv: "0 \<le> v0 * v0" by simp
  have vv': "v0 * v0 \<le> 2045 * 2045" using v0 by (intro mult_mono) simp_all
  have "v0 * v0 * a \<le> (2045 * 2045) * 2 ^ 40"
    by (rule mult_mono) (use vv' a in simp_all)
  then have "2 ^ 40 * w \<le> (2045 * 2045) * 2 ^ 40" using t by (simp add: t_def)
  then show w_hi: "w < 2 ^ 22" by simp
  have "0 \<le> v0 * v0 * a" using vv a0 by simp
  then show w_lo: "0 \<le> w" unfolding w by (simp add: pos_imp_zdiv_nonneg_iff)
  define z where "z = 2 ^ 50 - v0 * a"
  have key: "2 ^ 40 * e1 = z * z + a * (2 ^ 40 - t)"
    by (simp add: e1_def v1 z_def t_def algebra_simps power2_eq_square)
  have pos: "0 < a * (2 ^ 40 - t)" using a0 t by simp
  have le: "a * (2 ^ 40 - t) \<le> 2 ^ 40 * 2 ^ 40"
    using a t by (intro mult_mono) simp_all
  have zz: "0 \<le> z * z" by simp
  have "0 < 2 ^ 40 * e1" using key pos zz by linarith
  then show e1_pos: "0 < e1" by (simp add: zero_less_mult_iff)
  have "2 ^ 40 * e1 \<le> 1633284 * 2 ^ 62 + 2 ^ 40 * 2 ^ 40"
    using key z [folded z_def] le by linarith
  then show e1_hi: "e1 \<le> 1895428 * 2 ^ 22" by simp
  have va: "v1 * a = 2 ^ 60 - e1" by (simp add: e1_def)
  show v1_pos: "0 < v1"
  proof (rule ccontr)
    assume "\<not> 0 < v1"
    then have "v1 * a \<le> 0" using a0 by (simp add: mult_le_0_iff)
    with va e1_hi show False by simp
  qed
  show "v1 < 2 ^ 21"
  proof (rule ccontr)
    assume "\<not> v1 < 2 ^ 21"
    then have "2 ^ 21 * 2 ^ 39 \<le> v1 * a" using a by (intro mult_mono) simp_all
    with va e1_pos show False by simp
  qed
qed


lemma recip_step2:
  fixes a e1 v1 w2 v2 :: int
  assumes a: "2 ^ 39 < a" "a \<le> 2 ^ 40" and e1: "0 < e1" "e1 \<le> 1895428 * 2 ^ 22"
    and va: "v1 * a = 2 ^ 60 - e1" and v1: "0 < v1" "v1 < 2 ^ 21"
    and w2: "w2 = (v1 * e1) div 2 ^ 47" and v2: "v2 = 2 ^ 13 * v1 + w2"
  defines "e2 \<equiv> 2 ^ 73 - v2 * a"
  shows "0 \<le> v1 * e1" "v1 * e1 < 2 ^ 64" "0 < e2" "e2 < 449080912898 + a" "0 < v2" "v2 < 2 ^ 34"
proof -
  define t where "t = v1 * e1 - 2 ^ 47 * w2"
  have t: "0 \<le> t" "t < 2 ^ 47"
    unfolding t_def w2 by (simp_all add: minus_mult_div_eq_mod)
  have a0: "0 < a" using a by simp
  show p0: "0 \<le> v1 * e1" using v1 e1 by simp
  have "v1 * e1 \<le> 2 ^ 21 * (1895428 * 2 ^ 22)" using v1 e1 by (intro mult_mono) simp_all
  then show "v1 * e1 < 2 ^ 64" by simp
  have w20: "0 \<le> w2" unfolding w2 using p0 by (simp add: pos_imp_zdiv_nonneg_iff)
  show v2_pos: "0 < v2" using v1 w20 by (simp add: v2)
  have "2 ^ 47 * e2 = 2 ^ 120 - 2 ^ 60 * (v1 * a) - (v1 * e1 - t) * a"
    by (simp add: e2_def v2 t_def algebra_simps)
  also have "\<dots> = 2 ^ 120 - 2 ^ 60 * (v1 * a) - e1 * (v1 * a) + t * a"
    by (simp add: algebra_simps)
  also have "\<dots> = 2 ^ 120 - 2 ^ 60 * (2 ^ 60 - e1) - e1 * (2 ^ 60 - e1) + t * a"
    by (simp only: va)
  also have "\<dots> = e1 * e1 + t * a" by (simp add: algebra_simps)
  finally have key: "2 ^ 47 * e2 = e1 * e1 + t * a" .
  have ee: "0 < e1 * e1" using e1 by simp
  have ta: "0 \<le> t * a" using t a0 by simp
  have "0 < 2 ^ 47 * e2" using key ee ta by linarith
  then show e2_pos: "0 < e2" by (simp add: zero_less_mult_iff)
  have "e1 * e1 \<le> (1895428 * 2 ^ 22) * (1895428 * 2 ^ 22)" using e1 by (intro mult_mono) simp_all
  then have ee': "e1 * e1 \<le> 449080912898 * 2 ^ 47" by simp
  have "t * a < 2 ^ 47 * a" using t a0 by (intro mult_strict_right_mono) simp_all
  with key ee' have "2 ^ 47 * e2 < 2 ^ 47 * (449080912898 + a)" by simp
  then show "e2 < 449080912898 + a" by simp
  have v2a: "v2 * a = 2 ^ 73 - e2" by (simp add: e2_def)
  show "v2 < 2 ^ 34"
  proof (rule ccontr)
    assume "\<not> v2 < 2 ^ 34"
    then have "2 ^ 34 * 2 ^ 39 \<le> v2 * a" using a by (intro mult_mono) simp_all
    with v2a e2_pos show False by simp
  qed
qed

lemma recip_step3:
  fixes d a e2 v2 \<epsilon> e w3 V3 :: int
  assumes d: "2 ^ 63 \<le> d" "d < 2 ^ 64" and ad: "(a - 1) * 2 ^ 24 \<le> d" "d < a * 2 ^ 24"
    and a: "2 ^ 39 < a" "a \<le> 2 ^ 40"
    and e2: "0 < e2" "e2 < 449080912898 + a" and v2a: "v2 * a = 2 ^ 73 - e2"
    and v2: "0 < v2" "v2 < 2 ^ 34" and eps: "0 \<le> \<epsilon>" "\<epsilon> \<le> 1"
    and e: "2 * e = 2 ^ 97 - v2 * d - \<epsilon>"
    and w3: "w3 = (v2 * e) div 2 ^ 65" and V3: "V3 = 2 ^ 31 * v2 + w3"
  defines "E3 \<equiv> 2 ^ 128 - V3 * d"
  shows "0 < e" "e < 2 ^ 64" "0 < E3" "E3 < 2 * d" "2 ^ 64 \<le> V3" "V3 < 2 ^ 65"
proof -
  define y where "y = v2 * d"
  define g where "g = 2 ^ 97 - y"
  define G where "G = e2 + v2"
  have "y < v2 * (a * 2 ^ 24)" unfolding y_def using v2 ad by (intro mult_strict_left_mono) simp_all
  also have "\<dots> = 2 ^ 24 * (v2 * a)" by simp
  finally have g_lo: "2 ^ 24 * e2 < g" by (simp add: g_def v2a)
  have "v2 * ((a - 1) * 2 ^ 24) \<le> y" unfolding y_def using v2 ad by (intro mult_left_mono) simp_all
  moreover have "v2 * ((a - 1) * 2 ^ 24) = 2 ^ 24 * (v2 * a) - 2 ^ 24 * v2" by (simp add: algebra_simps)
  ultimately have g_hi: "g \<le> 2 ^ 24 * G" by (simp add: g_def v2a G_def)
  have g_pos: "0 < g" using g_lo e2 by simp
  have G_hi: "G < a + 466260782082" using e2 v2 by (simp add: G_def)
  have G_pos: "0 < G" using e2 v2 by (simp add: G_def)
  have e': "2 * e = g - \<epsilon>" using e by (simp add: g_def y_def)
  have "2 ^ 24 < g" using g_lo e2 by simp
  then show e_pos: "0 < e" using e' eps by simp
  have "g < 2 ^ 24 * 2 ^ 41" using g_hi G_hi a by simp
  then show "e < 2 ^ 64" using e' eps by simp
  define R where "R = v2 * e - 2 ^ 65 * w3"
  have R: "0 \<le> R" "R < 2 ^ 65"
    unfolding R_def w3 by (simp_all add: minus_mult_div_eq_mod)
  have "2 ^ 66 * E3 = 2 ^ 194 - 2 ^ 97 * y - 2 * d * (2 ^ 65 * w3)"
    by (simp add: E3_def V3 y_def algebra_simps)
  also have "\<dots> = 2 ^ 194 - 2 ^ 97 * y - 2 * d * (v2 * e - R)"
    by (simp add: R_def)
  also have "\<dots> = 2 ^ 194 - 2 ^ 97 * y - y * (2 * e) + 2 * d * R"
    by (simp add: y_def algebra_simps)
  also have "\<dots> = 2 ^ 194 - 2 ^ 97 * y - y * (2 ^ 97 - y - \<epsilon>) + 2 * d * R"
    using e by (simp add: y_def)
  also have "\<dots> = g * g + \<epsilon> * y + 2 * d * R"
    by (simp add: g_def algebra_simps)
  finally have key0: "2 ^ 66 * E3 = g * g + \<epsilon> * y + 2 * d * R" .
  define X Y Z where "X = d * R" and "Y = \<epsilon> * y" and "Z = g * g"
  have key: "73786976294838206464 * E3 = Z + Y + 2 * X"
    using key0 by (simp add: X_def Y_def Z_def)
  have y_pos: "0 < y" unfolding y_def using v2 d by simp
  have y_lt: "y < 2 ^ 97" using g_pos by (simp add: g_def)
  have gg: "0 < Z" using g_pos by (simp add: Z_def)
  have ey: "0 \<le> Y" "Y \<le> y"
    using eps y_pos by (simp_all add: mult_le_cancel_right1 Y_def)
  have d0: "0 < d" using d by simp
  have dR: "0 \<le> X" "X < 36893488147419103232 * d"
  proof -
    show "0 \<le> X" using d0 R by (simp add: X_def)
    have "d * R < d * 2 ^ 65" using d0 R by (intro mult_strict_left_mono) simp_all
    then show "X < 36893488147419103232 * d" by (simp add: X_def)
  qed
  have "0 < 73786976294838206464 * E3" using key gg ey dR by linarith
  then show E3_pos: "0 < E3" by (simp add: zero_less_mult_iff)
  have "g * g \<le> (2 ^ 24 * G) * (2 ^ 24 * G)" using g_pos g_hi by (intro mult_mono) simp_all
  then have gg1: "Z \<le> 2 ^ 48 * (G * G)" by (simp add: algebra_simps Z_def)
  have "G * G \<le> (a + 466260782082) * (a + 466260782082)"
    using G_pos G_hi by (intro mult_mono) simp_all
  also have "\<dots> = a * a + 932521564164 * a + 466260782082 * 466260782082"
    by (simp add: algebra_simps)
  finally have GG: "G * G \<le> a * a + 932521564164 * a + 466260782082 * 466260782082" .
  have a': "549755813888 < a" "a \<le> 1099511627776" using a by simp_all
  have aa: "a * a \<le> 1099511627776 * a" using a' by (intro mult_right_mono) simp_all
  have GG': "G * G \<le> a * a + 932521564164 * a + 217399116907718292254724"
    using GG by simp
  have "G * G + 562949953421312 \<le> 4398046511104 * a - 4398046511104" using GG' aa a' by linarith
  then have "G * G + 2 ^ 49 \<le> 2 ^ 42 * (a - 1)" by (simp add: algebra_simps)
  then have "2 ^ 48 * (G * G) + 2 ^ 97 \<le> 2 ^ 90 * (a - 1)" by simp
  also have "\<dots> = 2 ^ 66 * ((a - 1) * 2 ^ 24)" by simp
  also have "\<dots> \<le> 2 ^ 66 * d" using ad by (intro mult_left_mono) simp_all
  finally have "Z + 2 ^ 97 \<le> 2 ^ 66 * d" using gg1 by simp
  then have "Z + 158456325028528675187087900672 \<le> 73786976294838206464 * d" by simp
  moreover have "y < 158456325028528675187087900672" using y_lt by simp
  ultimately have "73786976294838206464 * E3 < 147573952589676412928 * d"
    using key ey dR by linarith
  then show E3_hi: "E3 < 2 * d" by simp
  have Vd: "V3 * d = 2 ^ 128 - E3" by (simp add: E3_def)
  show "V3 < 2 ^ 65"
  proof (rule ccontr)
    assume "\<not> V3 < 2 ^ 65"
    then have "2 ^ 65 * 2 ^ 63 \<le> V3 * d" using d by (intro mult_mono) simp_all
    with Vd E3_pos show False by simp
  qed
  show "2 ^ 64 \<le> V3"
  proof (rule ccontr)
    assume "\<not> 2 ^ 64 \<le> V3"
    then have "V3 * d \<le> (2 ^ 64 - 1) * d" using d0 by (intro mult_right_mono) simp_all
    then have "2 ^ 128 - 2 ^ 64 * d + d \<le> E3" using Vd by (simp add: algebra_simps)
    moreover have "2 ^ 64 * d \<le> 2 ^ 64 * (2 ^ 64 - 1)" using d by (intro mult_left_mono) simp_all
    ultimately show False using E3_hi d by simp
  qed
qed

lemma div_2_64_unique:
  fixes n k r :: int
  assumes "n = 2 ^ 64 * k + r" "0 \<le> r" "r < 2 ^ 64"
  shows "n div 2 ^ 64 = k"
  using assms by (simp add: div_pos_pos_trivial)

lemma recip_step4:
  fixes d V3 v3 hi v4 :: int
  assumes d: "2 ^ 63 \<le> d" "d < 2 ^ 64" and V3: "2 ^ 64 \<le> V3" "V3 < 2 ^ 65"
    and E3: "0 < 2 ^ 128 - V3 * d" "2 ^ 128 - V3 * d < 2 * d"
    and v3: "v3 = V3 - 2 ^ 64" and hi: "hi = ((v3 + 1) * d) div 2 ^ 64"
    and v4: "v4 = (v3 - hi - d) mod 2 ^ 64"
  shows "(2 ^ 64 + v4) * d < 2 ^ 128" "2 ^ 128 \<le> (2 ^ 64 + v4 + 1) * d" "0 \<le> v4" "v4 < 2 ^ 64"
proof -
  define E3 where "E3 = 2 ^ 128 - V3 * d"
  have Vd: "V3 * d = 2 ^ 128 - E3" by (simp add: E3_def)
  have E: "0 < E3" "E3 < 2 * d" using E3 by (simp_all add: E3_def)
  have v4r: "0 \<le> v4" "v4 < 2 ^ 64" by (simp_all add: v4)
  have v3r: "0 \<le> v3" "v3 < 2 ^ 64" using V3 by (simp_all add: v3)
  have prod: "(v3 + 1) * d = 2 ^ 64 * (2 ^ 64 - d) + (d - E3)"
    using Vd by (simp add: v3 algebra_simps)
  have goal: "(2 ^ 64 + v4) * d < 2 ^ 128 \<and> 2 ^ 128 \<le> (2 ^ 64 + v4 + 1) * d"
  proof (cases "E3 \<le> d")
    case True
    have "hi = 2 ^ 64 - d"
      unfolding hi by (rule div_2_64_unique [OF prod]) (use True E d in simp_all)
    then have "v4 = (v3 + (- 1) * 2 ^ 64) mod 2 ^ 64" by (simp add: v4)
    also have "\<dots> = v3 mod 2 ^ 64" by (simp only: mod_mult_self1)
    also have "\<dots> = v3" using v3r by simp
    finally have "v4 = v3" .
    then have "(2 ^ 64 + v4) * d = V3 * d" by (simp add: v3)
    then have "(2 ^ 64 + v4) * d = 2 ^ 128 - E3" using Vd by simp
    then show ?thesis using E True by (simp add: algebra_simps)
  next
    case False
    have prod': "(v3 + 1) * d = 2 ^ 64 * (2 ^ 64 - d - 1) + (2 ^ 64 + d - E3)"
      using prod by (simp add: algebra_simps)
    have "hi = 2 ^ 64 - d - 1"
      unfolding hi by (rule div_2_64_unique [OF prod']) (use False E d in simp_all)
    then have "v4 = (v3 + 1 + (- 1) * 2 ^ 64) mod 2 ^ 64" by (simp add: v4)
    also have "\<dots> = (v3 + 1) mod 2 ^ 64" by (simp only: mod_mult_self1)
    finally have v4': "v4 = (v3 + 1) mod 2 ^ 64" .
    have "(2 ^ 64 + v3 + 1) * d = 2 ^ 128 - (E3 - d)" using Vd by (simp add: v3 algebra_simps)
    then have lt: "(2 ^ 64 + v3 + 1) * d < 2 ^ 128" using False by simp
    have "v3 + 1 < 2 ^ 64"
    proof (rule ccontr)
      assume "\<not> v3 + 1 < 2 ^ 64"
      then have "(2 ^ 64 + 2 ^ 64) * 2 ^ 63 \<le> (2 ^ 64 + v3 + 1) * d"
        using d by (intro mult_mono) simp_all
      with lt show False by simp
    qed
    then have "v4 = v3 + 1" using v3r by (simp add: v4')
    then have "(2 ^ 64 + v4) * d = (V3 + 1) * d" by (simp add: v3)
    also have "\<dots> = V3 * d + d" by (simp add: algebra_simps)
    also have "\<dots> = 2 ^ 128 - (E3 - d)" using Vd by simp
    finally have "(2 ^ 64 + v4) * d = 2 ^ 128 - (E3 - d)" .
    then show ?thesis using E False by (simp add: algebra_simps)
  qed
  then show "(2 ^ 64 + v4) * d < 2 ^ 128" "2 ^ 128 \<le> (2 ^ 64 + v4 + 1) * d" by simp_all
  show "0 \<le> v4" "v4 < 2 ^ 64" using v4r by simp_all
qed


lemma uint_drop_bit64: "uint (drop_bit n (w :: u64)) = uint w div 2 ^ n"
  by (simp add: uint_nat unat_drop_bit64 zdiv_int del: of_nat_unat)

lemma uint_ucast_32_64: "uint (ucast (w :: u32) :: u64) = uint w"
  by (simp add: unsigned_ucast_eq take_bit_eq_mod) (use uint_bounded [of w] in simp)

lemma uint_ucast_16_32: "uint (ucast (w :: 16 word) :: u32) = uint w"
  by (simp add: unsigned_ucast_eq take_bit_eq_mod) (use uint_bounded [of w] in simp)

lemma uint_ucast_64_32: "uint (ucast (w :: u64) :: u32) = uint w mod 2 ^ 32"
  by (simp add: unsigned_ucast_eq take_bit_eq_mod)

lemma uint_ucast_32_16: "uint (ucast (w :: u32) :: 16 word) = uint w mod 2 ^ 16"
  by (simp add: unsigned_ucast_eq take_bit_eq_mod)

lemma uint_ucast_8_32: "uint (ucast (w :: 8 word) :: u32) = uint w"
  by (simp add: unsigned_ucast_eq take_bit_eq_mod) (use uint_bounded [of w] in simp)

lemma uint_wi64: "w = word_of_int k \<Longrightarrow> 0 \<le> k \<Longrightarrow> k < 2 ^ 64 \<Longrightarrow> uint (w :: u64) = k"
  by (simp add: uint_word_of_int64)

lemma uint_wi32: "w = word_of_int k \<Longrightarrow> 0 \<le> k \<Longrightarrow> k < 2 ^ 32 \<Longrightarrow> uint (w :: u32) = k"
  by (simp add: uint_word_of_int take_bit_eq_mod)

lemma reciprocal_table_nth:
  assumes "i < 256"
  shows "uint (reciprocal_table ! i) = 523520 div (256 + int i)"
proof -
  have i8: "uint (of_nat i :: 8 word) = int i"
    using assms by (simp add: uint_nat unat_of_nat del: of_nat_unat)
  define c :: u32 where "c = ucast (of_nat i :: 8 word)"
  have c: "uint c = int i" by (simp add: c_def uint_ucast_8_32 i8)
  have "unat c < 2 ^ 8" using assms c by (simp add: uint_nat del: of_nat_unat)
  moreover have "(2::nat) ^ 8 dvd unat (0x100 :: u32)" by simp
  ultimately have "unat (0x100 OR c) = unat (0x100 :: u32) + unat c"
    using or_disjoint_nat [of 8 "unat (0x100 :: u32)" "unat c"] by (simp add: unsigned_or_eq)
  then have o: "uint (0x100 OR c) = 256 + int i"
    using c by (simp add: uint_nat del: of_nat_unat)
  have "uint ((0x7fd00 :: u32) div (0x100 OR c)) = 523520 div (256 + int i)"
    by (simp add: uint_div o)
  moreover have "(523520 :: int) div (256 + int i) \<le> 523520 div 256"
    by (intro zdiv_mono2) simp_all
  ultimately have "uint (ucast ((0x7fd00 :: u32) div (0x100 OR c)) :: 16 word) = 523520 div (256 + int i)"
    by (simp add: uint_ucast_32_16 pos_imp_zdiv_nonneg_iff)
  moreover have "reciprocal_table ! i = reciprocal_table_item (of_nat i)"
    using assms by (simp add: reciprocal_table_def)
  ultimately show ?thesis by (simp add: reciprocal_table_item_def c_def)
qed


lemma wi_of_uint: "uint (w :: 'a::len word) = k \<Longrightarrow> w = word_of_int k"
  by auto

lemma div_bounds:
  fixes h c :: int
  assumes "0 < c"
  shows "(h div c) * c \<le> h" "h < (h div c + 1) * c"
proof -
  have e: "(h div c) * c = h - h mod c" by (simp add: minus_mod_eq_div_mult)
  have m: "0 \<le> h mod c" "h mod c < c" using assms by simp_all
  show "(h div c) * c \<le> h" unfolding e using m by simp
  have "(h div c + 1) * c = (h div c) * c + c" by (simp add: algebra_simps)
  then show "h < (h div c + 1) * c" unfolding e using m by simp
qed

lemma normalized_msb: "(d :: u64) AND 0x8000000000000000 \<noteq> 0 \<longleftrightarrow> 2 ^ 63 \<le> unat d"
proof -
  have "(0x8000000000000000 :: u64) = 2 ^ 63" by simp
  then have "d AND 0x8000000000000000 \<noteq> 0 \<longleftrightarrow> bit d 63"
    by (simp only: and_exp_eq_0_iff_not_bit) simp
  also have "\<dots> \<longleftrightarrow> bit (unat d) 63" by (simp add: bit_unsigned_iff)
  also have "\<dots> \<longleftrightarrow> odd (unat d div 2 ^ 63)" by (simp add: bit_iff_odd)
  also have "\<dots> \<longleftrightarrow> 2 ^ 63 \<le> unat d"
  proof (cases "2 ^ 63 \<le> unat d")
    case True
    have "unat d div 2 ^ 63 = 1"
      using True unat_lt64 [of d] by (intro div_nat_eqI) simp_all
    with True show ?thesis by simp
  next
    case False
    then have "unat d div 2 ^ 63 = 0" by simp
    with False show ?thesis by simp
  qed
  finally show ?thesis .
qed

lemma reciprocal_2by1_correct:
  assumes norm: "2 ^ 63 \<le> unat d"
  shows "\<exists>v. reciprocal_2by1 d = Some v \<and> (2 ^ 64 + unat v) * unat d < 2 ^ 128
             \<and> 2 ^ 128 \<le> (2 ^ 64 + unat v + 1) * unat d"
proof -
  define D where "D = uint d"
  have D: "2 ^ 63 \<le> D" "D < 2 ^ 64"
    using norm uint_lt64 [of d] by (simp_all add: D_def uint_nat del: of_nat_unat)
  define q where "q = D div 2 ^ 55"
  have q: "256 \<le> q" "q \<le> 511" using D by (simp_all add: q_def)
  define d9 where "d9 = drop_bit 55 d"
  have d9: "uint d9 = q" by (simp add: d9_def q_def D_def uint_drop_bit64)
  have "d9 - 256 = word_of_int (q - 256)" by (simp add: d9 [symmetric])
  then have "uint (d9 - 256) = q - 256" by (rule uint_wi64) (use q in simp_all)
  then have idx: "int (unat (d9 - 256)) = q - 256" by (simp add: uint_nat del: of_nat_unat)
  then have idx_lt: "unat (d9 - 256) < 256" using q by linarith
  define v0w :: u32 where "v0w = ucast (reciprocal_table ! unat (d9 - 256))"
  define v0 where "v0 = 523520 div q"
  have v0w: "uint v0w = v0"
    using reciprocal_table_nth [OF idx_lt] idx by (simp add: v0w_def uint_ucast_16_32 v0_def)
  define a where "a = D div 2 ^ 24 + 1"
  define d40 where "d40 = drop_bit 24 d + 1"
  have a: "2 ^ 39 < a" "a \<le> 2 ^ 40" using D by (simp_all add: a_def)
  have "d40 = word_of_int (uint (drop_bit 24 d) + 1)" by (simp add: d40_def)
  then have "d40 = word_of_int a" by (simp only: uint_drop_bit64 a_def D_def)
  then have d40: "uint d40 = a" by (rule uint_wi64) (use a in simp_all)
  have aq: "q * 2 ^ 31 + 1 \<le> a" "a \<le> (q + 1) * 2 ^ 31"
  proof -
    have e: "q = (D div 2 ^ 24) div 2 ^ 31"
      by (simp add: q_def zdiv_zmult2_eq [symmetric])
    have "q * 2 ^ 31 \<le> D div 2 ^ 24" "D div 2 ^ 24 < (q + 1) * 2 ^ 31"
      unfolding e by (rule div_bounds, simp)+
    then show "q * 2 ^ 31 + 1 \<le> a" "a \<le> (q + 1) * 2 ^ 31"
      by (simp_all add: a_def)
  qed
  have ad: "(a - 1) * 2 ^ 24 \<le> D" "D < a * 2 ^ 24"
    unfolding a_def using div_bounds [of "2 ^ 24" D] by simp_all
  note s0 = recip_step0 [OF q v0_def aq]
  define w where "w = (v0 * v0 * a) div 2 ^ 40"
  define v1 where "v1 = 2 ^ 11 * v0 - w - 1"
  note s1 = recip_step1 [OF s0(1,2) a s0(3) w_def v1_def]
  define e1 where "e1 = 2 ^ 60 - v1 * a"
  have v00: "0 \<le> v0" using s0 by simp
  have vv: "v0 * v0 \<le> 2045 * 2045" using s0 v00 by (intro mult_mono) simp_all
  have vv0: "0 \<le> v0 * v0" by simp
  have "v0w * v0w = word_of_int (v0 * v0)" by (simp add: v0w [symmetric])
  then have sq: "uint (v0w * v0w) = v0 * v0" by (rule uint_wi32) (use vv0 vv in simp_all)
  have vva: "v0 * v0 * a \<le> (2045 * 2045) * 2 ^ 40"
    by (rule mult_mono) (use vv a in simp_all)
  have vva0: "0 \<le> v0 * v0 * a" using vv0 a by simp
  have "ucast (v0w * v0w) * d40 = (word_of_int (v0 * v0 * a) :: u64)"
    by (simp add: sq [symmetric] d40 [symmetric] uint_ucast_32_64 [symmetric])
  then have "uint (ucast (v0w * v0w) * d40 :: u64) = v0 * v0 * a"
    by (rule uint_wi64) (use vva0 vva in simp_all)
  then have "uint (drop_bit 40 (ucast (v0w * v0w) * d40 :: u64)) = w"
    by (simp add: uint_drop_bit64 w_def)
  then have ww: "uint (ucast (drop_bit 40 (ucast (v0w * v0w) * d40 :: u64)) :: u32) = w"
    using s1(1,2) by (simp add: uint_ucast_64_32)
  define v1w :: u32 where "v1w = push_bit 11 v0w - ucast (drop_bit 40 (ucast (v0w * v0w) * d40 :: u64)) - 1"
  have "v1w = word_of_int v1"
    by (simp add: v1w_def v1_def push_bit_eq_mult ww [symmetric] v0w [symmetric])
  then have "uint v1w = v1" by (rule uint_wi32) (use s1(5,6) in simp_all)
  then have v1w: "uint (ucast v1w :: u64) = v1" by (simp add: uint_ucast_32_64)
  define v1u :: u64 where "v1u = ucast v1w"
  have v1u: "uint v1u = v1" using v1w by (simp add: v1u_def)
  have va: "v1 * a = 2 ^ 60 - e1" by (simp add: e1_def)
  define w2 where "w2 = (v1 * e1) div 2 ^ 47"
  define v2 where "v2 = 2 ^ 13 * v1 + w2"
  note s2 = recip_step2 [OF a s1(3,4) [folded e1_def] va s1(5,6) w2_def v2_def]
  define e2 where "e2 = 2 ^ 73 - v2 * a"
  have e1r: "0 \<le> e1" "e1 < 2 ^ 64" using s1(3,4) by (simp_all add: e1_def)
  have "0x1000000000000000 - v1u * d40 = word_of_int e1"
    by (simp add: e1_def v1u [symmetric] d40 [symmetric])
  then have e1w: "uint (0x1000000000000000 - v1u * d40) = e1"
    by (rule uint_wi64) (use e1r in simp_all)
  have "v1u * (0x1000000000000000 - v1u * d40) = word_of_int (v1 * e1)"
    by (simp add: v1u [symmetric] e1w [symmetric])
  then have "uint (v1u * (0x1000000000000000 - v1u * d40)) = v1 * e1"
    by (rule uint_wi64) (use s2(1,2) in simp_all)
  then have w2w: "uint (drop_bit 47 (v1u * (0x1000000000000000 - v1u * d40))) = w2"
    by (simp add: uint_drop_bit64 w2_def)
  define v2w where "v2w = push_bit 13 v1u + drop_bit 47 (v1u * (0x1000000000000000 - v1u * d40))"
  have "v2w = word_of_int v2"
    by (simp add: v2w_def v2_def push_bit_eq_mult w2w [symmetric] v1u [symmetric])
  then have v2w: "uint v2w = v2" by (rule uint_wi64) (use s2(5,6) in simp_all)
  have v2a: "v2 * a = 2 ^ 73 - e2" by (simp add: e2_def)
  define d0 where "d0 = D mod 2"
  have d0: "d0 = 0 \<or> d0 = 1" unfolding d0_def by presburger
  have Dsplit: "D = 2 * (D div 2) + d0" by (simp add: d0_def)
  define d0w where "d0w = d AND 1"
  have d0w: "uint d0w = d0"
    by (simp add: d0w_def and_one_eq d0_def D_def uint_mod)
  define d63 where "d63 = D div 2 + d0"
  define d63w where "d63w = drop_bit 1 d + d0w"
  have "d63w = word_of_int (uint (drop_bit 1 d) + d0)" by (simp add: d63w_def d0w [symmetric])
  then have "d63w = word_of_int d63" by (simp only: uint_drop_bit64 d63_def D_def power_one_right)
  then have d63w: "uint d63w = d63"
    by (rule uint_wi64) (use D d0 in \<open>auto simp: d63_def\<close>)
  define tw where "tw = drop_bit 1 v2w AND (0 - d0w)"
  have tw: "tw = word_of_int (d0 * (v2 div 2))"
  proof -
    have h: "drop_bit 1 v2w = word_of_int (v2 div 2)"
      by (rule wi_of_uint) (simp add: uint_drop_bit64 v2w)
    then have h': "drop_bit (Suc 0) v2w = word_of_int (v2 div 2)" by simp
    from d0 show ?thesis
    proof
      assume z: "d0 = 0"
      then have "d0w = 0" using d0w by (simp add: uint_0_iff [symmetric])
      then show ?thesis by (simp add: tw_def z)
    next
      assume o: "d0 = 1"
      then have "d0w = 1" using d0w by (metis uint_1 word_uint_eq_iff)
      then show ?thesis by (simp add: tw_def o h')
    qed
  qed
  define \<epsilon> where "\<epsilon> = d0 * (v2 mod 2)"
  define e where "e = 2 ^ 96 - v2 * d63 + (v2 div 2) * d0"
  have eps: "0 \<le> \<epsilon>" "\<epsilon> \<le> 1" using d0 by (auto simp: \<epsilon>_def)
  have e2eq: "2 * e = 2 ^ 97 - v2 * D - \<epsilon>"
  proof -
    have h2: "2 * (v2 div 2) = v2 - v2 mod 2" by (simp add: minus_mod_eq_mult_div)
    have "2 * ((v2 div 2) * d0) = (2 * (v2 div 2)) * d0" by simp
    also have "\<dots> = (v2 - v2 mod 2) * d0" by (simp only: h2)
    also have "\<dots> = v2 * d0 - \<epsilon>" by (simp add: \<epsilon>_def algebra_simps)
    finally have "2 * ((v2 div 2) * d0) = v2 * d0 - \<epsilon>" .
    moreover have "2 * (v2 * d63) = v2 * D + v2 * d0"
    proof -
      have "2 * d63 = D + d0" using Dsplit by (simp add: d63_def)
      then have "v2 * (2 * d63) = v2 * (D + d0)" by simp
      then show ?thesis by (simp add: algebra_simps)
    qed
    ultimately show ?thesis by (simp add: e_def algebra_simps)
  qed
  define w3 where "w3 = (v2 * e) div 2 ^ 65"
  define V3 where "V3 = 2 ^ 31 * v2 + w3"
  note s3 = recip_step3 [OF D ad a s2(3,4) [folded e2_def] v2a s2(5,6) eps e2eq w3_def V3_def]
  define ew where "ew = tw - v2w * d63w"
  have "ew = word_of_int (e + (- (2 ^ 32)) * 2 ^ 64)"
    by (simp add: ew_def tw e_def v2w [symmetric] d63w [symmetric] algebra_simps)
  then have "ew = word_of_int e" by (simp only: word_of_int_add_mult64)
  then have ew: "uint ew = e" by (rule uint_wi64) (use s3(1,2) in simp_all)
  have umul_hi: "uint (umul x y ! 1) = (uint x * uint y) div 2 ^ 64" for x y
  proof -
    have "uint (umul x y ! 1) = int (unat (umul x y ! 1))" by (rule uint_nat)
    also have "\<dots> = int ((unat x * unat y) div 2 ^ 64)" by (simp only: umul_nth(2))
    also have "\<dots> = (int (unat x) * int (unat y)) div 2 ^ 64" by (simp add: zdiv_int del: of_nat_unat)
    also have "\<dots> = (uint x * uint y) div 2 ^ 64" by simp
    finally show ?thesis .
  qed
  have umul_hi': "uint (umul x y ! Suc 0) = (uint x * uint y) div 2 ^ 64" for x y
    using umul_hi [of x y] by simp
  have "uint (drop_bit 1 (umul v2w ew ! 1)) = ((v2 * e) div 2 ^ 64) div 2"
    by (simp add: uint_drop_bit64 umul_hi' v2w ew)
  also have "\<dots> = w3" by (simp add: w3_def zdiv_zmult2_eq [symmetric])
  finally have w3w: "uint (drop_bit 1 (umul v2w ew ! 1)) = w3" .
  define v3w where "v3w = drop_bit 1 (umul v2w ew ! 1) + push_bit 31 v2w"
  define v3 where "v3 = V3 - 2 ^ 64"
  have "v3w = word_of_int (v3 + 1 * 2 ^ 64)"
    by (simp add: v3w_def v3_def V3_def push_bit_eq_mult w3w [symmetric] v2w [symmetric])
  then have "v3w = word_of_int v3" by (simp only: word_of_int_add_mult64)
  then have v3w: "uint v3w = v3" by (rule uint_wi64) (use s3(5,6) in \<open>simp_all add: v3_def\<close>)
  have v3r: "0 \<le> v3" "v3 < 2 ^ 64" using s3(5,6) by (simp_all add: v3_def)
  define hi where "hi = ((v3 + 1) * D) div 2 ^ 64"
  define v4 where "v4 = (v3 - hi - D) mod 2 ^ 64"
  have E3: "0 < 2 ^ 128 - V3 * D" "2 ^ 128 - V3 * D < 2 * D" using s3(3,4) by simp_all
  note s4 = recip_step4 [OF D s3(5,6) E3 v3_def hi_def v4_def]
  define sw where "sw = add_uint (umul v3w d) [d, 0]"
  have swl: "length sw = 2" by (simp add: sw_def length_add_uint length_umul)
  have "(v3 + 1) * D \<le> 2 ^ 64 * D" using v3r D by (intro mult_right_mono) simp_all
  also have "\<dots> < 2 ^ 64 * 2 ^ 64" using D by (intro mult_strict_left_mono) simp_all
  finally have plt: "(v3 + 1) * D < 2 ^ 128" by simp
  have "int (unat v3w * unat d + unat d) = (v3 + 1) * D"
    by (simp add: v3w [symmetric] D_def algebra_simps)
  then have n: "unat v3w * unat d + unat d = nat ((v3 + 1) * D)" by linarith
  have "nat ((v3 + 1) * D) < 2 ^ 128" using plt by simp
  then have vsw: "val sw = nat ((v3 + 1) * D)"
    by (simp add: sw_def val_add_uint length_umul umul_val n [symmetric])
  have "unat (sw ! 1) = nat ((v3 + 1) * D) div 2 ^ 64"
    unfolding val2_nth(2) [OF swl] vsw ..
  then have "int (unat (sw ! 1)) = int (nat ((v3 + 1) * D) div 2 ^ 64)" by simp
  also have "\<dots> = hi"
    using v3r D by (simp add: hi_def zdiv_int)
  finally have hiw: "uint (sw ! 1) = hi" by simp
  define v4w where "v4w = v3w - sw ! 1 - d"
  have "v4w = word_of_int (v3 - hi - D)"
    by (simp add: v4w_def v3w [symmetric] hiw [symmetric] D_def)
  then have "uint v4w = (v3 - hi - D) mod 2 ^ LENGTH(64)" by (simp only: uint_word_of_int)
  then have "uint v4w = v4" by (simp add: v4_def)
  then have v4n: "int (unat v4w) = v4" by simp
  have msb: "d AND 0x8000000000000000 \<noteq> 0" using norm by (simp only: normalized_msb)
  have r: "reciprocal_2by1 d = Some v4w"
    using msb
    by (simp add: reciprocal_2by1_def Let_def v4w_def sw_def v3w_def ew_def tw_def
        d63w_def d0w_def v2w_def v1u_def v1w_def d40_def v0w_def d9_def)
  have "int ((2 ^ 64 + unat v4w) * unat d) < int (2 ^ 128)"
    using s4(1) by (simp add: v4n [symmetric] D_def uint_nat del: of_nat_unat)
  then have c1: "(2 ^ 64 + unat v4w) * unat d < 2 ^ 128" by (simp only: of_nat_less_iff)
  have "int (2 ^ 128) \<le> int ((2 ^ 64 + unat v4w + 1) * unat d)"
    using s4(2) by (simp add: v4n [symmetric] D_def uint_nat del: of_nat_unat)
  then have c2: "2 ^ 128 \<le> (2 ^ 64 + unat v4w + 1) * unat d" by (simp only: of_nat_le_iff)
  show ?thesis using r c1 c2 by blast
qed


section \<open>Division of three words by two normalized words\<close>

text \<open>The arithmetic of \<open>udivrem_3by2\<close> over the integers: \<open>u2 \<beta> + u1\<close> is the value of the
  two top words of the numerator, \<open>d\<close> the divisor, \<open>k = \<beta>\<^sup>3 - (\<beta> + v) d\<close>, \<open>rt\<close> the
  candidate remainder.\<close>

lemma div3by2_core:
  fixes \<beta> d v u2 u1 u0 q1 q0 k :: int
  assumes b: "1 < \<beta>" and d: "\<beta> * \<beta> \<le> 2 * d" "d < \<beta> * \<beta>"
    and u2: "0 \<le> u2" and u1: "0 \<le> u1" "u1 < \<beta>" and u0: "0 \<le> u0" "u0 < \<beta>"
    and s: "u2 * \<beta> + u1 < d"
    and q0: "0 \<le> q0" "q0 < \<beta>"
    and v: "0 \<le> v"
    and k: "(\<beta> + v) * d = \<beta> * \<beta> * \<beta> - k" "0 < k" "k \<le> d"
    and q: "u2 * (\<beta> + v) + u1 = q1 * \<beta> + q0"
  defines "rt \<equiv> u2 * (\<beta> * \<beta>) + u1 * \<beta> + u0 - (q1 + 1) * d"
  shows "- d \<le> rt" and "q0 * \<beta> \<le> rt + \<beta> * \<beta>"
    and "q0 * \<beta> \<le> rt \<Longrightarrow> rt < \<beta> * \<beta> - d"
    and "rt < 2 * d" and "rt < \<beta> * \<beta>"
proof -
  define B2 where "B2 = \<beta> * \<beta>"
  define A where "A = u2 * k + u1 * (B2 - d) + u0 * \<beta>"
  have b0: "0 < \<beta>" using b by simp
  have B2: "0 < B2" "\<beta> < B2" using b by (simp_all add: B2_def)
  have dB: "B2 \<le> 2 * d" "d < B2" using d by (simp_all add: B2_def)
  have d0: "0 < d" using dB B2 by simp
  have bd: "\<beta> \<le> d"
  proof -
    have "2 * \<beta> \<le> \<beta> * \<beta>" using b by (intro mult_right_mono) simp_all
    then show ?thesis using d by simp
  qed
  have E: "\<beta> * (rt + d) = A + q0 * d"
  proof -
    have "\<beta> * (rt + d) = u2 * (\<beta> * \<beta> * \<beta>) + u1 * B2 + u0 * \<beta> - (q1 * \<beta>) * d"
      by (simp add: rt_def B2_def algebra_simps)
    also have "\<dots> = u2 * (\<beta> * \<beta> * \<beta>) + u1 * B2 + u0 * \<beta> - (u2 * (\<beta> + v) + u1 - q0) * d"
      using q by simp
    also have "\<dots> = u2 * (\<beta> * \<beta> * \<beta>) + u1 * (B2 - d) + u0 * \<beta> - u2 * ((\<beta> + v) * d) + q0 * d"
      by (simp add: algebra_simps)
    also have "\<dots> = u2 * (\<beta> * \<beta> * \<beta>) + u1 * (B2 - d) + u0 * \<beta> - u2 * (\<beta> * \<beta> * \<beta> - k) + q0 * d"
      by (simp only: k(1))
    also have "\<dots> = A + q0 * d" by (simp add: A_def algebra_simps)
    finally show ?thesis .
  qed
  have A0: "0 \<le> A"
  proof -
    have "0 \<le> u2 * k" using u2 k by simp
    moreover have "0 \<le> u1 * (B2 - d)" using u1 dB by simp
    moreover have "0 \<le> u0 * \<beta>" using u0 b0 by simp
    ultimately show ?thesis by (simp add: A_def)
  qed
  have q0d: "0 \<le> q0 * d" "q0 * d \<le> (\<beta> - 1) * d"
    using q0 d0 by (simp_all add: mult_right_mono)
  have "0 \<le> \<beta> * (rt + d)" using E A0 q0d by simp
  then have "0 \<le> rt + d" using b0 by (simp add: zero_le_mult_iff)
  then show "- d \<le> rt" by simp
  show "q0 * \<beta> \<le> rt + \<beta> * \<beta>"
  proof (rule ccontr)
    assume "\<not> q0 * \<beta> \<le> rt + \<beta> * \<beta>"
    then have le: "rt \<le> (q0 - \<beta>) * \<beta>" by (simp add: algebra_simps)
    have neg: "q0 - \<beta> < 0" using q0 by simp
    have "\<beta> * rt \<le> \<beta> * ((q0 - \<beta>) * \<beta>)" using le b0 by (intro mult_left_mono) simp_all
    then have 1: "\<beta> * rt \<le> (q0 - \<beta>) * B2" by (simp add: B2_def algebra_simps)
    have 2: "(q0 - \<beta>) * B2 < (q0 - \<beta>) * d"
      using neg dB by (intro mult_strict_left_mono_neg) simp_all
    have "q0 * d \<le> \<beta> * (rt + d)" using E A0 by simp
    then have 3: "(q0 - \<beta>) * d \<le> \<beta> * rt" by (simp add: algebra_simps)
    from 1 2 3 show False by simp
  qed
  have vd: "v * d = \<beta> * B2 - k - \<beta> * d"
    using k(1) by (simp add: B2_def algebra_simps)
  have bA: "\<beta> * A < B2 * B2 - B2 * d + d * d"
  proof -
    have "\<beta> * A = (u2 * \<beta> + u1) * k + u1 * (\<beta> * B2 - k - \<beta> * d) + u0 * B2"
      by (simp add: A_def B2_def algebra_simps)
    also have "\<dots> = (u2 * \<beta> + u1) * k + u1 * (v * d) + u0 * B2"
      by (simp only: vd)
    also have "\<dots> \<le> (d - 1) * k + (\<beta> - 1) * (v * d) + (\<beta> - 1) * B2"
    proof -
      have "(u2 * \<beta> + u1) * k \<le> (d - 1) * k" using s k by (intro mult_right_mono) simp_all
      moreover have "u1 * (v * d) \<le> (\<beta> - 1) * (v * d)"
        using u1 v d0 by (intro mult_right_mono) simp_all
      moreover have "u0 * B2 \<le> (\<beta> - 1) * B2" using u0 B2 by (intro mult_right_mono) simp_all
      ultimately show ?thesis by simp
    qed
    also have "\<dots> = (d - 1) * k + (\<beta> - 1) * (\<beta> * B2 - k - \<beta> * d) + (\<beta> - 1) * B2"
      by (simp only: vd)
    also have "\<dots> = (k + \<beta>) * (d - \<beta>) + B2 * B2 - B2 * d"
      by (simp add: B2_def algebra_simps)
    also have "\<dots> \<le> (d + \<beta>) * (d - \<beta>) + B2 * B2 - B2 * d"
      using k bd by (simp add: mult_right_mono)
    also have "\<dots> = d * d - B2 + B2 * B2 - B2 * d" by (simp add: B2_def algebra_simps)
    also have "\<dots> < B2 * B2 - B2 * d + d * d" using B2 by simp
    finally show ?thesis .
  qed
  have E2: "B2 * (rt + d) = \<beta> * A + \<beta> * (q0 * d)"
  proof -
    have "B2 * (rt + d) = \<beta> * (\<beta> * (rt + d))" by (simp add: B2_def)
    also have "\<dots> = \<beta> * (A + q0 * d)" by (simp only: E)
    finally show ?thesis by (simp add: algebra_simps)
  qed
  have sq: "(B2 - d) * (B2 - d) \<le> d * (B2 - d)"
    using dB by (intro mult_right_mono) simp_all
  have up: "B2 * (rt + d) < B2 * B2 + d * d"
  proof -
    have "\<beta> * (q0 * d) \<le> \<beta> * ((\<beta> - 1) * d)" using q0d b0 by (intro mult_left_mono) simp_all
    also have "\<dots> = B2 * d - \<beta> * d" by (simp add: B2_def algebra_simps)
    also have "\<dots> < B2 * d" using b0 d0 by simp
    finally show ?thesis using E2 bA by simp
  qed
  show "rt < \<beta> * \<beta> - d" if "q0 * \<beta> \<le> rt"
  proof (rule ccontr)
    assume "\<not> rt < \<beta> * \<beta> - d"
    then have ge: "B2 - d \<le> rt" by (simp add: B2_def)
    have "\<beta> * (q0 * d) = (q0 * \<beta>) * d" by simp
    also have "\<dots> \<le> rt * d" using that d0 by (intro mult_right_mono) simp_all
    finally have "B2 * (rt + d) \<le> \<beta> * A + rt * d" using E2 by simp
    then have "rt * (B2 - d) \<le> \<beta> * A - B2 * d" by (simp add: algebra_simps)
    also have "\<dots> < B2 * B2 - B2 * d + d * d - B2 * d" using bA by simp
    also have "\<dots> = (B2 - d) * (B2 - d)" by (simp add: algebra_simps)
    also have "\<dots> \<le> rt * (B2 - d)" using ge dB by (intro mult_right_mono) simp_all
    finally show False by simp
  qed
  have sq': "B2 * B2 + d * d \<le> 3 * (B2 * d) - d * d"
    using sq by (simp add: algebra_simps)
  show "rt < 2 * d"
  proof (rule ccontr)
    assume "\<not> rt < 2 * d"
    then have "B2 * (3 * d) \<le> B2 * (rt + d)" using B2 by (intro mult_left_mono) simp_all
    then have "3 * (B2 * d) < B2 * B2 + d * d" using up by simp
    moreover have "0 < d * d" using d0 by simp
    ultimately show False using sq' by simp
  qed
  show "rt < \<beta> * \<beta>"
  proof (rule ccontr)
    assume "\<not> rt < \<beta> * \<beta>"
    then have "B2 * (B2 + d) \<le> B2 * (rt + d)" using B2 by (intro mult_left_mono) (simp_all add: B2_def)
    then have "B2 * d < d * d" using up by (simp add: algebra_simps)
    moreover have "d * d \<le> B2 * d" using dB d0 by (intro mult_right_mono) simp_all
    ultimately show False by simp
  qed
qed


lemma bit63_iff: "bit (d :: u64) 63 \<longleftrightarrow> 2 ^ 63 \<le> unat d"
proof -
  have lt: "unat d < 2 ^ 64" by (rule unat_lt64)
  have "bit d 63 \<longleftrightarrow> bit (unat d) 63" by (simp add: bit_unsigned_iff)
  also have "\<dots> \<longleftrightarrow> odd (unat d div 2 ^ 63)" by (simp add: bit_iff_odd)
  also have "\<dots> \<longleftrightarrow> 2 ^ 63 \<le> unat d"
  proof
    assume "odd (unat d div 2 ^ 63)"
    then have "unat d div 2 ^ 63 \<noteq> 0" by (metis even_zero)
    then show "2 ^ 63 \<le> unat d" by (simp add: div_eq_0_iff)
  next
    assume a: "2 ^ 63 \<le> unat d"
    have "unat d div 2 ^ 63 = 1"
      by (rule div_nat_eqI) (use a lt in simp_all)
    then show "odd (unat d div 2 ^ 63)" by simp
  qed
  finally show ?thesis .
qed

text \<open>Claim C2. For every 64-bit \<open>d\<close> whose most significant bit is set, \<open>reciprocal_2by1\<close>
  returns a word, and that word is exactly \<open>\<lfloor>(2\<^sup>1\<^sup>2\<^sup>8 - 1) / d\<rfloor> - 2\<^sup>6\<^sup>4\<close>.\<close>

theorem reciprocal_2by1_exact:
  assumes "bit d 63"
  shows "\<exists>v. reciprocal_2by1 d = Some v \<and> uint v = (2 ^ 128 - 1) div uint d - 2 ^ 64"
proof -
  have norm: "2 ^ 63 \<le> unat d" using assms by (simp add: bit63_iff)
  from reciprocal_2by1_correct [OF norm] obtain v
    where v: "reciprocal_2by1 d = Some v"
      and lo: "(2 ^ 64 + unat v) * unat d < 2 ^ 128"
      and hi: "2 ^ 128 \<le> (2 ^ 64 + unat v + 1) * unat d"
    by blast
  have "(2 ^ 128 - 1) div unat d = 2 ^ 64 + unat v"
    by (rule div_nat_eqI) (use lo hi in \<open>simp_all add: algebra_simps\<close>)
  then have "int ((2 ^ 128 - 1) div unat d) = 2 ^ 64 + int (unat v)" by simp
  then have "(2 ^ 128 - 1) div uint d = 2 ^ 64 + uint v"
    by (simp add: zdiv_int uint_nat of_nat_diff del: of_nat_unat)
  then show ?thesis using v by simp
qed

theorem reciprocal_2by1_exact_witness:
  "bit (0x8000000000000000 :: u64) 63
   \<and> reciprocal_2by1 0x8000000000000000 = Some 0xFFFFFFFFFFFFFFFF
   \<and> uint (0xFFFFFFFFFFFFFFFF :: u64) = (2 ^ 128 - 1) div uint (0x8000000000000000 :: u64) - 2 ^ 64"
proof -
  have b: "bit (0x8000000000000000 :: u64) 63" by (simp add: bit63_iff)
  from reciprocal_2by1_exact [OF b] obtain v
    where v: "reciprocal_2by1 0x8000000000000000 = Some v"
      and e: "uint v = (2 ^ 128 - 1) div uint (0x8000000000000000 :: u64) - 2 ^ 64"
    by blast
  from e have "uint v = uint (0xFFFFFFFFFFFFFFFF :: u64)" by simp
  then have "v = 0xFFFFFFFFFFFFFFFF" by (simp only: word_uint_eq_iff)
  with v b e show ?thesis by simp
qed


section \<open>The early return of \<open>udivrem\<close>\<close>



lemma skip_zero_words_nonzero: "0 < skip_zero_words u k \<Longrightarrow> u ! (skip_zero_words u k - 1) \<noteq> 0"
  by (induction k) (auto split: if_splits)







section \<open>Decimal parsing past the width\<close>

text \<open>
  Claim C6 fails on the code: the digits of \<open>2 ^ 128 + 10\<close> parse at 128 bits to the
  wrapped value 10 and no failure is reported.
\<close>

theorem from_string_wraps_silently:
  "from_string 2 ''340282366920938463463374607431768211466'' = Inr [10, 0]"
  by code_simp

text \<open>
  Claim C7 fails for base 16: \<open>to_string\<close> writes no \<open>0x\<close> prefix, so the text of 16 in
  base 16 parses as the decimal number 10.
\<close>

theorem hex_round_trip_counterexample:
  "to_string 0 [16, 0] 16 = Some (Inr ''10'') \<and> from_string 2 ''10'' = Inr [10, 0]
   \<and> [10, 0] \<noteq> [16, 0 :: u64]"
  by code_simp


end
